theory Spec2Isabelle
  imports Main "HOL-Library.Sublist"
begin

section \<open>Strings\<close>

text \<open>
  Texts are lists of 8-bit characters, read as the code points 0..255. The three string
  operations that \<open>compliance_check\<close> relies on are \<open>str.lower\<close>, the substring test
  \<open>in\<close> and \<open>str.split\<close> without arguments; they are written out here as they behave on
  that range of code points.
\<close>

text \<open>\<open>str.lower\<close>: A..Z and the upper-case letters of the upper half (all of 0xC0..0xDE
  but the multiplication sign 0xD7) move up by 32; every other character is kept.\<close>

definition lower_char :: "char \<Rightarrow> char" where
  "lower_char c =
     (let n = (of_char c :: nat) in
      if (65 \<le> n \<and> n \<le> 90) \<or> (192 \<le> n \<and> n \<le> 222 \<and> n \<noteq> 215)
      then char_of (n + 32) else c)"

definition lower :: "string \<Rightarrow> string" where
  "lower s = map lower_char s"

text \<open>\<open>sub in s\<close>: \<open>sub\<close> occurs in \<open>s\<close> as a contiguous block.\<close>

fun contains :: "string \<Rightarrow> string \<Rightarrow> bool" where
  "contains sub [] = (sub = [])"
| "contains sub (c # cs) = (prefix sub (c # cs) \<or> contains sub cs)"

text \<open>\<open>str.isspace\<close> on one character: 0x09..0x0D, 0x1C..0x20, 0x85 and 0xA0.\<close>

definition isspace :: "char \<Rightarrow> bool" where
  "isspace c =
     (let n = (of_char c :: nat) in
      (9 \<le> n \<and> n \<le> 13) \<or> (28 \<le> n \<and> n \<le> 32) \<or> n = 133 \<or> n = 160)"

text \<open>\<open>s.split()\<close>: the maximal runs of characters that are not whitespace, in order.
  \<open>split_from cur s\<close> scans \<open>s\<close> with the word begun so far in \<open>cur\<close>.\<close>

fun split_from :: "string \<Rightarrow> string \<Rightarrow> string list" where
  "split_from cur [] = (if cur = [] then [] else [cur])"
| "split_from cur (c # cs) =
     (if isspace c then (if cur = [] then split_from [] cs else cur # split_from [] cs)
      else split_from (cur @ [c]) cs)"

definition split :: "string \<Rightarrow> string list" where
  "split s = split_from [] s"

section \<open>The compliance checker\<close>

record ComplianceIssue =
  rule :: string
  message :: string

text \<open>The dictionary \<open>{"ok": ..., "issues": [...]}\<close> that the tool returns.\<close>

record compliance_result =
  ok :: bool
  issues :: "ComplianceIssue list"

text \<open>The four conditions of \<open>compliance_check\<close>, each as the source writes it.\<close>

definition placeholder_cond :: "string \<Rightarrow> bool" where
  "placeholder_cond text = (contains ''TBD'' text \<or> contains ''to be determined'' (lower text))"

definition risk_cond :: "string \<Rightarrow> bool" where
  "risk_cond text = (contains ''risk'' (lower text) \<and> \<not> contains ''mitigation'' (lower text))"

definition consent_cond :: "string \<Rightarrow> bool" where
  "consent_cond text = (contains ''consent'' (lower text) \<and> \<not> contains ''withdraw'' (lower text))"

definition length_cond :: "string \<Rightarrow> bool" where
  "length_cond text = (length (split text) < 150)"

definition no_placeholders :: ComplianceIssue where
  "no_placeholders = \<lparr>rule = ''no_placeholders'', message = ''Remove TBD/placeholder language.''\<rparr>"

definition risk_mitigation :: ComplianceIssue where
  "risk_mitigation =
     \<lparr>rule = ''risk_mitigation'', message = ''Mention risk mitigation when risks are discussed.''\<rparr>"

definition consent_withdrawal :: ComplianceIssue where
  "consent_withdrawal =
     \<lparr>rule = ''consent_withdrawal'', message = ''State withdrawal rights in consent context.''\<rparr>"

definition min_length :: ComplianceIssue where
  "min_length =
     \<lparr>rule = ''min_length'', message = ''Provide at least ~150 words for sufficient detail.''\<rparr>"

text \<open>\<open>compliance_check\<close>: the list \<open>issues\<close> starts empty and each of the four \<open>if\<close>
  statements appends to it in turn.\<close>

definition compliance_check :: "string \<Rightarrow> compliance_result" where
  "compliance_check text =
     (let issues0 = [];
          issues1 = (if placeholder_cond text then issues0 @ [no_placeholders] else issues0);
          issues2 = (if risk_cond text then issues1 @ [risk_mitigation] else issues1);
          issues3 = (if consent_cond text then issues2 @ [consent_withdrawal] else issues2);
          issues4 = (if length_cond text then issues3 @ [min_length] else issues3)
      in \<lparr>ok = (length issues4 = 0), issues = issues4\<rparr>)"

text \<open>The rule table as the specification words it: an ordered list of rules, each with the
  condition under which it fires. "Case-insensitive" containment compares the lower-cased
  phrase with the lower-cased text; the word count is the number of whitespace-delimited
  words.\<close>

definition contains_ci :: "string \<Rightarrow> string \<Rightarrow> bool" where
  "contains_ci phrase text = contains (lower phrase) (lower text)"

definition word_count :: "string \<Rightarrow> nat" where
  "word_count text = length (split text)"

definition spec_rules :: "(ComplianceIssue \<times> (string \<Rightarrow> bool)) list" where
  "spec_rules =
     [(no_placeholders, \<lambda>text. contains ''TBD'' text \<or> contains_ci ''to be determined'' text),
      (risk_mitigation, \<lambda>text. contains_ci ''risk'' text \<and> \<not> contains_ci ''mitigation'' text),
      (consent_withdrawal, \<lambda>text. contains_ci ''consent'' text \<and> \<not> contains_ci ''withdraw'' text),
      (min_length, \<lambda>text. word_count text < 150)]"

definition spec_fired :: "string \<Rightarrow> ComplianceIssue list" where
  "spec_fired text = map fst (filter (\<lambda>r. snd r text) spec_rules)"

section \<open>The context formatter\<close>

record Document =
  metadata :: "string \<rightharpoonup> string"
  page_content :: string

definition nl :: char where
  "nl = CHR 0x0A"

text \<open>\<open>str(i)\<close> for a non-negative integer: its decimal digits.\<close>

definition digit :: "nat \<Rightarrow> char" where
  "digit d = char_of (48 + d)"

fun str_nat :: "nat \<Rightarrow> string" where
  "str_nat n = (if n < 10 then [digit n] else str_nat (n div 10) @ [digit (n mod 10)])"

text \<open>\<open>os.path.basename\<close>: what follows the last slash. \<open>after_slash cur p\<close> scans \<open>p\<close>
  with the part since the last slash in \<open>cur\<close>.\<close>

fun after_slash :: "string \<Rightarrow> string \<Rightarrow> string" where
  "after_slash cur [] = cur"
| "after_slash cur (c # cs) = (if c = CHR ''/'' then after_slash [] cs else after_slash (cur @ [c]) cs)"

definition basename :: "string \<Rightarrow> string" where
  "basename p = after_slash [] p"

text \<open>\<open>s.replace(old, new)\<close> for single characters.\<close>

definition replace_char :: "char \<Rightarrow> char \<Rightarrow> string \<Rightarrow> string" where
  "replace_char old new s = map (\<lambda>c. if c = old then new else c) s"

text \<open>\<open>sep.join(xs)\<close>.\<close>

fun join :: "string \<Rightarrow> string list \<Rightarrow> string" where
  "join sep [] = []"
| "join sep [x] = x"
| "join sep (x # y # ys) = x @ sep @ join sep (y # ys)"

text \<open>One pass of the loop body of \<open>fmt_context\<close>: the line for document \<open>d\<close> at index \<open>i\<close>.\<close>

definition fmt_line :: "nat \<Rightarrow> Document \<Rightarrow> string" where
  "fmt_line i d =
     (let src = (case metadata d ''source'' of None \<Rightarrow> ''doc'' | Some s \<Rightarrow> s) in
      ''- ['' @ str_nat i @ ''] ('' @ basename src @ '') '' @
        replace_char nl (CHR '' '') (take 350 (page_content d)) @ ''...'')"

text \<open>The loop \<open>for i, d in enumerate(docs, 1)\<close>, started at index \<open>i\<close>.\<close>

fun fmt_lines :: "nat \<Rightarrow> Document list \<Rightarrow> string list" where
  "fmt_lines i [] = []"
| "fmt_lines i (d # ds) = fmt_line i d # fmt_lines (i + 1) ds"

definition fmt_context :: "Document list \<Rightarrow> string" where
  "fmt_context docs = join [nl] (fmt_lines 1 docs)"

text \<open>The vocabulary of the specification for a formatted entry: its label is the base
  name of the snippet's source, it carries the ellipsis marker when it ends in three dots,
  and a snippet was truncated when its text is longer than the preview length.
  \<open>newlines\<close> counts the line breaks of a text.\<close>

definition source_label :: "Document \<Rightarrow> string" where
  "source_label d = basename (case metadata d ''source'' of None \<Rightarrow> ''doc'' | Some s \<Rightarrow> s)"

definition newlines :: "string \<Rightarrow> nat" where
  "newlines s = length (filter (\<lambda>c. c = nl) s)"

definition has_ellipsis :: "string \<Rightarrow> bool" where
  "has_ellipsis line = suffix ''...'' line"

definition truncated :: "Document \<Rightarrow> bool" where
  "truncated d = (350 < length (page_content d))"

section \<open>Errors, the outside world and the run state\<close>

text \<open>
  Every exception that the pipeline can raise is a value. \<open>RuntimeError\<close> is what
  \<open>get_llm\<close> raises itself; \<open>KeyError\<close> comes from \<open>state["task"]\<close> and
  \<open>state["draft"]\<close> on a missing key; \<open>NameError\<close> from a global name that the module
  never binds; \<open>RetrieverError\<close> and \<open>GeneratorError\<close> wrap whatever the retriever and the
  text generator raise from inside their calls.
\<close>

datatype error =
    RuntimeError string
  | KeyError string
  | NameError string
  | RetrieverError string
  | GeneratorError string

text \<open>The calls that leave the pipeline, in the order they are made: a retrieval with its
  query, a generation with its system and human message, a compliance check with its text.\<close>

datatype call =
    RetrieverCall string
  | GeneratorCall string string
  | ComplianceCall string

text \<open>\<open>DocState\<close> is a \<open>TypedDict\<close> with \<open>total=False\<close>: every key may be absent. The
  fields carry the prefix \<open>st_\<close> (the key \<open>i\<close> would otherwise hide a variable name and
  \<open>issues\<close> is a field of the checker's result already). The value a node returns is a
  \<open>DocState\<close> too, holding only the keys that the node sets.\<close>

record DocState =
  st_task :: "string option"
  st_context :: "string option"
  st_draft :: "string option"
  st_issues :: "ComplianceIssue list option"
  st_i :: "int option"
  st_max_iters :: "int option"
  st_final :: "string option"

definition empty_state :: DocState where
  "empty_state = \<lparr>st_task = None, st_context = None, st_draft = None, st_issues = None,
     st_i = None, st_max_iters = None, st_final = None\<rparr>"

text \<open>\<open>d.get(key, default)\<close> on an optional field.\<close>

definition get_or :: "'a option \<Rightarrow> 'a \<Rightarrow> 'a" where
  "get_or v dflt = (case v of None \<Rightarrow> dflt | Some x \<Rightarrow> x)"

text \<open>The graph writes the keys of a node's result over the state and keeps the others.\<close>

definition over :: "'a option \<Rightarrow> 'a option \<Rightarrow> 'a option" where
  "over old new = (case new of None \<Rightarrow> old | Some x \<Rightarrow> Some x)"

definition apply_delta :: "DocState \<Rightarrow> DocState \<Rightarrow> DocState" where
  "apply_delta st d =
     \<lparr>st_task = over (st_task st) (st_task d),
      st_context = over (st_context st) (st_context d),
      st_draft = over (st_draft st) (st_draft d),
      st_issues = over (st_issues st) (st_issues d),
      st_i = over (st_i st) (st_i d),
      st_max_iters = over (st_max_iters st) (st_max_iters d),
      st_final = over (st_final st) (st_final d)\<rparr>"

text \<open>
  The world outside a run: \<open>calls\<close> is the record of the calls made so far, oldest first,
  and \<open>visited\<close> the record of the nodes run so far, each with the state that the graph held
  once the node's result was written. Both only grow, and the pipeline's own code never
  reads them.

  The environment of a run: the process environment, the retriever and the text
  generator. The two collaborators answer from the calls made so far and their arguments,
  so they may answer the same question differently at different times; \<open>Inl\<close> is the
  message of an exception raised inside the call.
\<close>

datatype node = Retrieve | Draft | Check | Revise

record world =
  calls :: "call list"
  visited :: "(node \<times> DocState) list"

record env =
  environ :: "string \<rightharpoonup> string"
  retriever :: "call list \<Rightarrow> string \<Rightarrow> string + Document list"
  generator :: "call list \<Rightarrow> string \<Rightarrow> string \<Rightarrow> string + string"

definition record_call :: "call \<Rightarrow> world \<Rightarrow> world" where
  "record_call c w = w\<lparr>calls := calls w @ [c]\<rparr>"

section \<open>The text generator and the prompts\<close>

text \<open>\<open>get_llm\<close>: \<open>not api_key\<close> holds for an unset variable and for an empty one. The
  handle it returns is the generator of the environment.\<close>

definition get_llm :: "env \<Rightarrow> error + (call list \<Rightarrow> string \<Rightarrow> string \<Rightarrow> string + string)" where
  "get_llm e =
     (case environ e ''ANTHROPIC_API_KEY'' of
        None \<Rightarrow> Inl (RuntimeError ''Please set ANTHROPIC_API_KEY environment variable.'')
      | Some api_key \<Rightarrow>
          if api_key = [] then Inl (RuntimeError ''Please set ANTHROPIC_API_KEY environment variable.'')
          else Inr (generator e))"

definition DRAFT_SYSTEM :: string where
  "DRAFT_SYSTEM =
     ''You are a clinical-trial documentation assistant. Write clear, precise, and compliant text. '' @
     ''Follow retrieved guidance carefully and avoid ambiguous statements.''"

definition DRAFT_HUMAN :: "string \<Rightarrow> string \<Rightarrow> string" where
  "DRAFT_HUMAN task context =
     ''TASK: '' @ task @ [nl, nl] @
     ''CONTEXT (guidance snippets):'' @ [nl] @ context @ [nl, nl] @
     ''Write the requested section. Use neutral tone and professional clinical-trial style.''"

definition REVISION_SYSTEM :: string where
  "REVISION_SYSTEM = ''You are a meticulous compliance editor for clinical-trial documents.''"

definition REVISION_HUMAN :: "string \<Rightarrow> string \<Rightarrow> string" where
  "REVISION_HUMAN draft issues_str =
     ''Revise the DRAFT to resolve the following compliance issues. Preserve meaning and structure.'' @
     [nl, nl] @
     ''DRAFT:'' @ [nl] @ draft @ [nl, nl] @
     ''COMPLIANCE ISSUES:'' @ [nl] @ issues_str @ [nl, nl] @
     ''Return the full revised text, improved but not overly verbose.''"

text \<open>\<open>chain.invoke\<close> on \<open>prompt | llm | StrOutputParser()\<close>: one call of the generator
  with the two filled-in messages; its answer is the text, its exception ends the node.\<close>

definition chain_invoke ::
  "(call list \<Rightarrow> string \<Rightarrow> string \<Rightarrow> string + string) \<Rightarrow> string \<Rightarrow> string \<Rightarrow> world \<Rightarrow>
     (error + string) \<times> world" where
  "chain_invoke llm sys human w =
     (case llm (calls w) sys human of
        Inl msg \<Rightarrow> (Inl (GeneratorError msg), record_call (GeneratorCall sys human) w)
      | Inr out \<Rightarrow> (Inr out, record_call (GeneratorCall sys human) w))"

section \<open>The nodes\<close>

definition retrieve :: "env \<Rightarrow> DocState \<Rightarrow> world \<Rightarrow> (error + DocState) \<times> world" where
  "retrieve e state w =
     (case st_task state of
        None \<Rightarrow> (Inl (KeyError ''task''), w)
      | Some task \<Rightarrow>
          (case retriever e (calls w) task of
             Inl msg \<Rightarrow> (Inl (RetrieverError msg), record_call (RetrieverCall task) w)
           | Inr docs \<Rightarrow>
               (Inr (empty_state\<lparr>st_context := Some (fmt_context docs)\<rparr>),
                record_call (RetrieverCall task) w)))"

definition draft_node :: "env \<Rightarrow> DocState \<Rightarrow> world \<Rightarrow> (error + DocState) \<times> world" where
  "draft_node e state w =
     (case get_llm e of
        Inl err \<Rightarrow> (Inl err, w)
      | Inr llm \<Rightarrow>
          (case st_task state of
             None \<Rightarrow> (Inl (KeyError ''task''), w)
           | Some task \<Rightarrow>
               (case chain_invoke llm DRAFT_SYSTEM (DRAFT_HUMAN task (get_or (st_context state) [])) w of
                  (Inl err, w') \<Rightarrow> (Inl err, w')
                | (Inr draft, w') \<Rightarrow> (Inr (empty_state\<lparr>st_draft := Some draft\<rparr>), w'))))"

definition check_node :: "DocState \<Rightarrow> world \<Rightarrow> (error + DocState) \<times> world" where
  "check_node state w =
     (case st_draft state of
        None \<Rightarrow> (Inl (KeyError ''draft''), w)
      | Some draft \<Rightarrow>
          (let result = compliance_check draft in
           (Inr (empty_state\<lparr>st_issues := Some (issues result)\<rparr>),
            record_call (ComplianceCall draft) w)))"

definition issues_str :: "ComplianceIssue list \<Rightarrow> string" where
  "issues_str iss = join [nl] (map (\<lambda>i. ''- '' @ rule i @ '': '' @ message i) iss)"

definition revise_node :: "env \<Rightarrow> DocState \<Rightarrow> world \<Rightarrow> (error + DocState) \<times> world" where
  "revise_node e state w =
     (case get_llm e of
        Inl err \<Rightarrow> (Inl err, w)
      | Inr llm \<Rightarrow>
          (case st_draft state of
             None \<Rightarrow> (Inl (KeyError ''draft''), w)
           | Some draft \<Rightarrow>
               (case chain_invoke llm REVISION_SYSTEM
                       (REVISION_HUMAN draft (issues_str (get_or (st_issues state) []))) w of
                  (Inl err, w') \<Rightarrow> (Inl err, w')
                | (Inr revised, w') \<Rightarrow>
                    (Inr (empty_state\<lparr>st_draft := Some revised,
                                      st_i := Some (get_or (st_i state) 0 + 1)\<rparr>), w'))))"

text \<open>The router after the check.\<close>

definition decide_next :: "DocState \<Rightarrow> string" where
  "decide_next state =
     (let issues = get_or (st_issues state) [] in
      if issues = [] then ''end''
      else if get_or (st_i state) 0 \<ge> get_or (st_max_iters state) 2 then ''end''
      else ''revise'')"

section \<open>The graph\<close>

text \<open>\<open>build_graph\<close> registers the four nodes, enters at \<open>retrieve\<close> and lays the edges
  retrieve to draft, draft to check, revise to check; after check the router's answer
  \<open>"revise"\<close> leads to revise and \<open>"end"\<close> to \<open>END\<close>, which is \<open>None\<close> here.\<close>

definition run_node :: "env \<Rightarrow> node \<Rightarrow> DocState \<Rightarrow> world \<Rightarrow> (error + DocState) \<times> world" where
  "run_node e n state w =
     (case n of
        Retrieve \<Rightarrow> retrieve e state w
      | Draft \<Rightarrow> draft_node e state w
      | Check \<Rightarrow> check_node state w
      | Revise \<Rightarrow> revise_node e state w)"

definition next_node :: "node \<Rightarrow> DocState \<Rightarrow> node option" where
  "next_node n state =
     (case n of
        Retrieve \<Rightarrow> Some Draft
      | Draft \<Rightarrow> Some Check
      | Check \<Rightarrow> (if decide_next state = ''revise'' then Some Revise else None)
      | Revise \<Rightarrow> Some Check)"

definition mark_visited :: "node \<Rightarrow> DocState \<Rightarrow> world \<Rightarrow> world" where
  "mark_visited n state w = w\<lparr>visited := visited w @ [(n, state)]\<rparr>"

text \<open>
  A run of the compiled graph, seen from the caller's loop \<open>for event in app.stream(state)\<close>:
  the graph runs one node, writes its result into the state and hands the event (the node
  and its result) to the loop body \<open>body\<close>; when the body raises, the run stops there, and
  otherwise the graph follows the edge out of the node. \<open>app.invoke\<close> is the same run with
  a body that does nothing. The graph library's own step budget lies outside the
  repository and is not part of this model.
\<close>

definition loop_measure :: "node \<Rightarrow> DocState \<Rightarrow> nat" where
  "loop_measure n state =
     (let i = get_or (st_i state) 0; m = get_or (st_max_iters state) 2 in
      case n of
        Retrieve \<Rightarrow> 3 * nat (m - i) + 3
      | Draft \<Rightarrow> 3 * nat (m - i) + 2
      | Check \<Rightarrow> 3 * nat (m - i) + 1
      | Revise \<Rightarrow> 3 * nat (m - (i + 1)) + 2)"

function graph_loop ::
  "env \<Rightarrow> (node \<Rightarrow> DocState \<Rightarrow> error option) \<Rightarrow> node \<Rightarrow> DocState \<Rightarrow> world \<Rightarrow>
     (error + DocState) \<times> world" where
  "graph_loop e body n state w =
     (case run_node e n state w of
        (Inl err, w1) \<Rightarrow> (Inl err, w1)
      | (Inr delta, w1) \<Rightarrow>
          (case body n delta of
             Some err \<Rightarrow> (Inl err, mark_visited n (apply_delta state delta) w1)
           | None \<Rightarrow>
               (case next_node n (apply_delta state delta) of
                  None \<Rightarrow> (Inr (apply_delta state delta), mark_visited n (apply_delta state delta) w1)
                | Some n' \<Rightarrow>
                    graph_loop e body n' (apply_delta state delta)
                      (mark_visited n (apply_delta state delta) w1))))"
  by pat_completeness auto

text \<open>\<open>app.invoke(state)\<close>: the run from the entry point, nobody listening.\<close>

definition invoke :: "env \<Rightarrow> DocState \<Rightarrow> world \<Rightarrow> (error + DocState) \<times> world" where
  "invoke e state w = graph_loop e (\<lambda>n delta. None) Retrieve state w"

section \<open>Streaming and the demo run\<close>

text \<open>
  The body of the loop in \<open>stream_run\<close> starts with
  \<open>now = dt.datetime.utcnow().isoformat() + "Z"\<close>. The module never binds the name \<open>dt\<close>
  (it imports neither \<open>datetime\<close> nor \<open>json\<close>), so the first statement of the body raises
  \<open>NameError\<close> for every event, outside the only \<open>try\<close> of the function. The console
  output and the opening of the events file before the loop are not modelled.
\<close>

definition stream_body :: "node \<Rightarrow> DocState \<Rightarrow> error option" where
  "stream_body n delta = Some (NameError ''dt'')"

definition stream_run :: "env \<Rightarrow> DocState \<Rightarrow> string option \<Rightarrow> world \<Rightarrow> (error + unit) \<times> world" where
  "stream_run e state_init events_path w =
     (case graph_loop e stream_body Retrieve state_init w of
        (Inl err, w') \<Rightarrow> (Inl err, w')
      | (Inr final, w') \<Rightarrow> (Inr (), w'))"

definition DEFAULT_TASK :: string where
  "DEFAULT_TASK =
     ''Write a '' @ [CHR 0x22] @ ''Protocol Synopsis'' @ [CHR 0x22] @
     '' paragraph for an interventional Phase II oncology trial. '' @
     ''Mention design, key eligibility, primary endpoint, AE reporting basics, data protection, and informed consent.''"

text \<open>\<open>run_demo\<close>; the vector store that \<open>persist_dir\<close> names is the retriever of the
  environment. \<open>task_or_default\<close> is the statement \<open>if not task: task = ...\<close>, and
  \<open>initial_state\<close> the dictionary \<open>{"task": task, "i": 0, "max_iters": 2}\<close>. The result
  is the final text that the function prints.\<close>

definition task_or_default :: "string option \<Rightarrow> string" where
  "task_or_default task =
     (case task of None \<Rightarrow> DEFAULT_TASK | Some t \<Rightarrow> if t = [] then DEFAULT_TASK else t)"

definition initial_state :: "string \<Rightarrow> DocState" where
  "initial_state task = empty_state\<lparr>st_task := Some task, st_i := Some 0, st_max_iters := Some 2\<rparr>"

definition run_demo ::
  "env \<Rightarrow> string option \<Rightarrow> bool \<Rightarrow> string option \<Rightarrow> world \<Rightarrow> (error + string) \<times> world" where
  "run_demo e task stream events_path w =
     (let task1 = task_or_default task;
          state = initial_state task1
      in case (if stream then stream_run e state events_path w else (Inr (), w)) of
           (Inl err, w1) \<Rightarrow> (Inl err, w1)
         | (Inr u, w1) \<Rightarrow>
             (case invoke e state w1 of
                (Inl err, w2) \<Rightarrow> (Inl err, w2)
              | (Inr final_state, w2) \<Rightarrow> (Inr (get_or (st_draft final_state) []), w2)))"

section \<open>Counting what a run does\<close>

definition is_retrieval :: "call \<Rightarrow> bool" where
  "is_retrieval c = (case c of RetrieverCall q \<Rightarrow> True | _ \<Rightarrow> False)"

definition is_generation :: "call \<Rightarrow> bool" where
  "is_generation c = (case c of GeneratorCall s h \<Rightarrow> True | _ \<Rightarrow> False)"

definition is_drafting :: "call \<Rightarrow> bool" where
  "is_drafting c = (case c of GeneratorCall s h \<Rightarrow> s = DRAFT_SYSTEM | _ \<Rightarrow> False)"

definition is_revision :: "call \<Rightarrow> bool" where
  "is_revision c = (case c of GeneratorCall s h \<Rightarrow> s = REVISION_SYSTEM | _ \<Rightarrow> False)"

definition is_check :: "call \<Rightarrow> bool" where
  "is_check c = (case c of ComplianceCall t \<Rightarrow> True | _ \<Rightarrow> False)"

definition count_calls :: "(call \<Rightarrow> bool) \<Rightarrow> world \<Rightarrow> nat" where
  "count_calls p w = length (filter p (calls w))"

definition fresh :: world where
  "fresh = \<lparr>calls = [], visited = []\<rparr>"

text \<open>IterationCount and MaxIterations of a state, as the router reads them.\<close>

definition iteration_count :: "DocState \<Rightarrow> int" where
  "iteration_count state = get_or (st_i state) 0"

definition max_iterations :: "DocState \<Rightarrow> int" where
  "max_iterations state = get_or (st_max_iters state) 2"

text \<open>Stand-ins for the collaborators, for running the pipeline on concrete inputs: the
  credential is set, the retriever finds nothing, and the generator answers every call
  with the same text. \<open>no_key_env\<close> is the same with the credential unset.\<close>

definition stub_env :: "string \<Rightarrow> env" where
  "stub_env answer =
     \<lparr>environ = [''ANTHROPIC_API_KEY'' \<mapsto> ''key''],
      retriever = (\<lambda>h q. Inr []),
      generator = (\<lambda>h s m. Inr answer)\<rparr>"

definition no_key_env :: "string \<Rightarrow> env" where
  "no_key_env answer = (stub_env answer)\<lparr>environ := Map.empty\<rparr>"

section \<open>Facts about strings\<close>

lemma contains_Nil: "contains [] s"
  by (cases s) simp_all

lemma contains_imp_subset: "contains sub s \<Longrightarrow> set sub \<subseteq> set s"
proof (induction s)
  case Nil
  then show ?case by simp
next
  case (Cons c cs)
  from Cons.prems consider "prefix sub (c # cs)" | "contains sub cs" by auto
  then show ?case
  proof cases
    case 1
    then show ?thesis by (rule set_mono_prefix)
  next
    case 2
    with Cons.IH show ?thesis by auto
  qed
qed

lemma contains_appendI: "contains sub a \<Longrightarrow> contains sub (a @ b)"
proof (induction a)
  case Nil
  then show ?case by (simp add: contains_Nil)
next
  case (Cons c cs)
  from Cons.prems consider "prefix sub (c # cs)" | "contains sub cs" by auto
  then show ?case
  proof cases
    case 1
    then have "prefix sub ((c # cs) @ b)" by (rule prefix_prefix)
    then show ?thesis by simp
  next
    case 2
    with Cons.IH show ?thesis by simp
  qed
qed

text \<open>\<open>contains\<close> is the substring relation.\<close>

lemma contains_iff: "contains sub s \<longleftrightarrow> (\<exists>p q. s = p @ sub @ q)"
proof (induction s)
  case Nil
  show ?case by auto
next
  case (Cons c cs)
  show ?case
  proof
    assume "contains sub (c # cs)"
    then consider "prefix sub (c # cs)" | "contains sub cs" by auto
    then show "\<exists>p q. c # cs = p @ sub @ q"
    proof cases
      case 1
      then obtain q where "c # cs = sub @ q" by (auto simp: prefix_def)
      then have "c # cs = [] @ sub @ q" by simp
      then show ?thesis by blast
    next
      case 2
      then obtain p q where "cs = p @ sub @ q" using Cons.IH by auto
      then have "c # cs = (c # p) @ sub @ q" by simp
      then show ?thesis by blast
    qed
  next
    assume "\<exists>p q. c # cs = p @ sub @ q"
    then obtain p q where pq: "c # cs = p @ sub @ q" by auto
    show "contains sub (c # cs)"
    proof (cases p)
      case Nil
      with pq have "prefix sub (c # cs)" by (simp add: prefix_def)
      then show ?thesis by simp
    next
      case (Cons a p')
      with pq have "cs = p' @ sub @ q" by simp
      then show ?thesis using Cons.IH by auto
    qed
  qed
qed

lemma lower_concat_replicate: "lower (concat (replicate n u)) = concat (replicate n (lower u))"
  by (simp add: lower_def map_concat)

lemma set_concat_replicate: "set (concat (replicate n u)) \<subseteq> set u"
  by (induction n) auto

lemma lower_literals:
  "lower ''to be determined'' = ''to be determined''"
  "lower ''risk'' = ''risk''"
  "lower ''mitigation'' = ''mitigation''"
  "lower ''consent'' = ''consent''"
  "lower ''withdraw'' = ''withdraw''"
  by (simp_all add: lower_def lower_char_def)

section \<open>The compliance checker: what it returns\<close>

lemma conds_ci:
  "placeholder_cond text = (contains ''TBD'' text \<or> contains_ci ''to be determined'' text)"
  "risk_cond text = (contains_ci ''risk'' text \<and> \<not> contains_ci ''mitigation'' text)"
  "consent_cond text = (contains_ci ''consent'' text \<and> \<not> contains_ci ''withdraw'' text)"
  "length_cond text = (word_count text < 150)"
  by (simp_all add: placeholder_cond_def risk_cond_def consent_cond_def length_cond_def
      contains_ci_def word_count_def lower_literals)

lemma issues_distinct:
  "no_placeholders \<noteq> risk_mitigation" "no_placeholders \<noteq> consent_withdrawal"
  "no_placeholders \<noteq> min_length" "risk_mitigation \<noteq> consent_withdrawal"
  "risk_mitigation \<noteq> min_length" "consent_withdrawal \<noteq> min_length"
  by (simp_all add: no_placeholders_def risk_mitigation_def consent_withdrawal_def min_length_def)

lemma issues_of_check:
  "issues (compliance_check text) =
     (if placeholder_cond text then [no_placeholders] else []) @
     (if risk_cond text then [risk_mitigation] else []) @
     (if consent_cond text then [consent_withdrawal] else []) @
     (if length_cond text then [min_length] else [])"
  by (simp add: compliance_check_def)

lemma ok_of_check: "ok (compliance_check text) = (issues (compliance_check text) = [])"
  by (simp add: compliance_check_def Let_def)

lemma check_TBD: "issues (compliance_check ''TBD'') = [no_placeholders, min_length]"
  by (simp add: issues_of_check placeholder_cond_def risk_cond_def consent_cond_def
      length_cond_def split_def lower_def lower_char_def isspace_def)

text \<open>
  Claim C5. A text of at least 150 whitespace-delimited words that holds neither the marker
  "TBD" nor the phrase "to be determined" (in any case), that does not hold "risk" without
  "mitigation" and does not hold "consent" without "withdraw" (in any case) passes: the
  check returns \<open>ok = True\<close> and no issue. The witness is a text of exactly 150 words.
\<close>

theorem compliant_text_passes:
  assumes "150 \<le> word_count text"
    and "\<not> contains ''TBD'' text"
    and "\<not> contains_ci ''to be determined'' text"
    and "\<not> (contains_ci ''risk'' text \<and> \<not> contains_ci ''mitigation'' text)"
    and "\<not> (contains_ci ''consent'' text \<and> \<not> contains_ci ''withdraw'' text)"
  shows "compliance_check text = \<lparr>ok = True, issues = []\<rparr>"
proof -
  have "issues (compliance_check text) = []"
    using assms by (simp add: issues_of_check conds_ci)
  moreover have "ok (compliance_check text)"
    using calculation by (simp add: ok_of_check)
  ultimately show ?thesis by (cases "compliance_check text") simp
qed

lemma split_unit:
  "split_from [] (''Risk mitigation and consent to withdraw '' @ rest) =
     [''Risk'', ''mitigation'', ''and'', ''consent'', ''to'', ''withdraw''] @ split_from [] rest"
  by (simp add: isspace_def)

lemma split_units:
  "split_from [] (concat (replicate n ''Risk mitigation and consent to withdraw '')) =
     concat (replicate n [''Risk'', ''mitigation'', ''and'', ''consent'', ''to'', ''withdraw''])"
proof (induction n)
  case 0
  show ?case by simp
next
  case (Suc n)
  have "split_from [] (concat (replicate (Suc n) ''Risk mitigation and consent to withdraw '')) =
        split_from [] (''Risk mitigation and consent to withdraw '' @
           concat (replicate n ''Risk mitigation and consent to withdraw ''))" by simp
  also have "\<dots> = [''Risk'', ''mitigation'', ''and'', ''consent'', ''to'', ''withdraw''] @
        split_from [] (concat (replicate n ''Risk mitigation and consent to withdraw ''))"
    by (rule split_unit)
  finally show ?case using Suc.IH by simp
qed

lemma word_count_units:
  "word_count (concat (replicate n ''Risk mitigation and consent to withdraw '')) = 6 * n"
  by (simp add: word_count_def split_def split_units length_concat sum_list_replicate)

lemma lower_unit:
  "lower ''Risk mitigation and consent to withdraw '' = ''risk mitigation and consent to withdraw ''"
  by code_simp

theorem compliant_text_passes_witness:
  "word_count (concat (replicate 25 ''Risk mitigation and consent to withdraw '')) = 150 \<and>
   compliance_check (concat (replicate 25 ''Risk mitigation and consent to withdraw '')) =
     \<lparr>ok = True, issues = []\<rparr>"
proof -
  let ?u = "''Risk mitigation and consent to withdraw ''"
  let ?W = "concat (replicate 25 ?u)"
  have wc: "word_count ?W = 150" by (simp add: word_count_units)
  have low: "lower ?W = concat (replicate 25 (lower ?u))" by (rule lower_concat_replicate)
  have h2: "\<not> contains ''TBD'' ?W"
  proof
    assume "contains ''TBD'' ?W"
    then have "set ''TBD'' \<subseteq> set ?W" by (rule contains_imp_subset)
    also have "\<dots> \<subseteq> set ?u" by (rule set_concat_replicate)
    finally show False by simp
  qed
  have h3: "\<not> contains_ci ''to be determined'' ?W"
  proof
    assume "contains_ci ''to be determined'' ?W"
    then have "contains ''to be determined'' (concat (replicate 25 (lower ?u)))"
      by (simp only: contains_ci_def lower_literals low)
    then have "set ''to be determined'' \<subseteq> set (concat (replicate 25 (lower ?u)))"
      by (rule contains_imp_subset)
    also have "\<dots> \<subseteq> set (lower ?u)" by (rule set_concat_replicate)
    finally show False by (simp add: lower_unit)
  qed
  have split25: "concat (replicate 25 (lower ?u)) = lower ?u @ concat (replicate 24 (lower ?u))"
    by (simp add: eval_nat_numeral del: replicate_Suc) (simp add: replicate_Suc)
  have "contains ''mitigation'' (lower ?u)" by (simp add: lower_unit)
  then have "contains ''mitigation'' (lower ?W)"
    unfolding low split25 by (rule contains_appendI)
  then have h4: "\<not> (contains_ci ''risk'' ?W \<and> \<not> contains_ci ''mitigation'' ?W)"
    by (simp add: contains_ci_def lower_literals)
  have "contains ''withdraw'' (lower ?u)" by (simp add: lower_unit)
  then have "contains ''withdraw'' (lower ?W)"
    unfolding low split25 by (rule contains_appendI)
  then have h5: "\<not> (contains_ci ''consent'' ?W \<and> \<not> contains_ci ''withdraw'' ?W)"
    by (simp add: contains_ci_def lower_literals)
  have "150 \<le> word_count ?W" using wc by simp
  from compliant_text_passes [OF this h2 h3 h4 h5] wc show ?thesis by simp
qed

text \<open>
  Claim C6. Whatever else a text holds, a word count below 150 puts the issue
  \<open>min_length\<close> on the list; and for the text "TBD" the list is exactly
  \<open>no_placeholders\<close>, \<open>min_length\<close>.
\<close>

theorem short_text_min_length:
  "(word_count text < 150 \<longrightarrow> min_length \<in> set (issues (compliance_check text))) \<and>
   issues (compliance_check ''TBD'') = [no_placeholders, min_length]"
proof
  show "word_count text < 150 \<longrightarrow> min_length \<in> set (issues (compliance_check text))"
    by (simp add: issues_of_check conds_ci)
  show "issues (compliance_check ''TBD'') = [no_placeholders, min_length]"
    by (rule check_TBD)
qed

theorem short_text_min_length_witness:
  "word_count ''no risk, TBD'' < 150 \<and>
   min_length \<in> set (issues (compliance_check ''no risk, TBD''))"
proof -
  have short: "word_count ''no risk, TBD'' < 150"
    by (simp add: word_count_def split_def isspace_def)
  with short_text_min_length [of "''no risk, TBD''"] show ?thesis by blast
qed

text \<open>
  Claim C7. The check runs all four rules, none of them cutting the others short: the
  issue list is the sublist of the ordered rule table \<open>no_placeholders\<close>,
  \<open>risk_mitigation\<close>, \<open>consent_withdrawal\<close>, \<open>min_length\<close> made of the rules that fire on
  the text, in the table's order; each issue is on the list exactly when its own rule
  fires; and \<open>ok\<close> holds exactly when no rule fired.
\<close>

theorem check_is_fired_rules:
  "issues (compliance_check text) = spec_fired text \<and>
   ok (compliance_check text) = (spec_fired text = []) \<and>
   (no_placeholders \<in> set (issues (compliance_check text)) \<longleftrightarrow>
      contains ''TBD'' text \<or> contains_ci ''to be determined'' text) \<and>
   (risk_mitigation \<in> set (issues (compliance_check text)) \<longleftrightarrow>
      contains_ci ''risk'' text \<and> \<not> contains_ci ''mitigation'' text) \<and>
   (consent_withdrawal \<in> set (issues (compliance_check text)) \<longleftrightarrow>
      contains_ci ''consent'' text \<and> \<not> contains_ci ''withdraw'' text) \<and>
   (min_length \<in> set (issues (compliance_check text)) \<longleftrightarrow> word_count text < 150)"
proof -
  have fired: "issues (compliance_check text) = spec_fired text"
    by (simp add: issues_of_check spec_fired_def spec_rules_def conds_ci)
  have okk: "ok (compliance_check text) = (spec_fired text = [])"
    using fired by (simp add: ok_of_check)
  have m1: "no_placeholders \<in> set (issues (compliance_check text)) \<longleftrightarrow>
      contains ''TBD'' text \<or> contains_ci ''to be determined'' text"
    using issues_distinct by (simp add: issues_of_check conds_ci)
  have m2: "risk_mitigation \<in> set (issues (compliance_check text)) \<longleftrightarrow>
      contains_ci ''risk'' text \<and> \<not> contains_ci ''mitigation'' text"
    using issues_distinct by (simp add: issues_of_check conds_ci)
  have m3: "consent_withdrawal \<in> set (issues (compliance_check text)) \<longleftrightarrow>
      contains_ci ''consent'' text \<and> \<not> contains_ci ''withdraw'' text"
    using issues_distinct by (simp add: issues_of_check conds_ci)
  have m4: "min_length \<in> set (issues (compliance_check text)) \<longleftrightarrow> word_count text < 150"
    using issues_distinct by (simp add: issues_of_check conds_ci)
  from fired okk m1 m2 m3 m4 show ?thesis by blast
qed

theorem check_is_fired_rules_witness:
  "issues (compliance_check ''Consent and RISK: TBD'') =
     [no_placeholders, risk_mitigation, consent_withdrawal, min_length] \<and>
   \<not> ok (compliance_check ''Consent and RISK: TBD'')"
proof -
  have low: "lower ''Consent and RISK: TBD'' = ''consent and risk: tbd''"
    by code_simp
  have "spec_fired ''Consent and RISK: TBD'' =
     [no_placeholders, risk_mitigation, consent_withdrawal, min_length]"
    by (simp add: spec_fired_def spec_rules_def contains_ci_def lower_literals low
        word_count_def split_def isspace_def)
  with check_is_fired_rules [of "''Consent and RISK: TBD''"] show ?thesis by simp
qed

text \<open>
  Claim C10. On the empty text none of the three content rules fires and the word count is
  0: the check returns \<open>ok = False\<close> and the single issue \<open>min_length\<close>.
\<close>

theorem empty_text_min_length:
  "compliance_check [] = \<lparr>ok = False, issues = [min_length]\<rparr>"
  by (simp add: compliance_check_def placeholder_cond_def risk_cond_def consent_cond_def
      length_cond_def split_def lower_def)

section \<open>The graph loop ends\<close>

text \<open>No node touches \<open>max_iters\<close>, and only \<open>revise\<close> touches \<open>i\<close>, adding one.\<close>

lemma run_node_counters:
  assumes "run_node e n state w = (Inr delta, w1)"
  shows "get_or (st_max_iters (apply_delta state delta)) 2 = get_or (st_max_iters state) 2"
    and "get_or (st_i (apply_delta state delta)) 0 =
           (if n = Revise then get_or (st_i state) 0 + 1 else get_or (st_i state) 0)"
  using assms
  by (cases n; auto simp: run_node_def retrieve_def draft_node_def check_node_def revise_node_def
      chain_invoke_def apply_delta_def over_def empty_state_def get_or_def Let_def
      split: option.splits sum.splits prod.splits if_splits)+

lemma decide_next_revise:
  "decide_next state = ''revise'' \<Longrightarrow> get_or (st_i state) 0 < get_or (st_max_iters state) 2"
  by (simp add: decide_next_def Let_def split: if_splits)

lemma loop_decreases:
  assumes r: "run_node e n state w = (Inr delta, w1)"
    and nx: "next_node n (apply_delta state delta) = Some n'"
  shows "loop_measure n' (apply_delta state delta) < loop_measure n state"
proof -
  note c = run_node_counters [OF r]
  show ?thesis
  proof (cases n)
    case Retrieve
    with nx c show ?thesis by (auto simp add: next_node_def loop_measure_def)
  next
    case Draft
    with nx c show ?thesis by (auto simp add: next_node_def loop_measure_def)
  next
    case Check
    with nx have "decide_next (apply_delta state delta) = ''revise''" and n': "n' = Revise"
      by (auto simp add: next_node_def split: if_splits)
    from decide_next_revise [OF this(1)] c Check n' show ?thesis
      by (simp add: loop_measure_def)
  next
    case Revise
    with nx c show ?thesis by (auto simp add: next_node_def loop_measure_def)
  qed
qed

termination graph_loop
  by (relation "measure (\<lambda>(e, body, n, state, w). loop_measure n state)")
    (auto intro: loop_decreases [OF sym])

declare graph_loop.simps [simp del]

section \<open>What one node adds to the record of calls\<close>

lemma system_prompts_differ: "DRAFT_SYSTEM \<noteq> REVISION_SYSTEM"
  by (simp add: DRAFT_SYSTEM_def REVISION_SYSTEM_def)

lemma count_calls_record:
  "count_calls p (record_call c w) = count_calls p w + (if p c then 1 else 0)"
  by (simp add: count_calls_def record_call_def)

lemma count_calls_mark [simp]: "count_calls p (mark_visited n st w) = count_calls p w"
  by (simp add: count_calls_def mark_visited_def)

lemma visited_record_call [simp]: "visited (record_call c w) = visited w"
  by (simp add: record_call_def)

lemma retrieve_world:
  "retrieve e state w = (r, w1) \<Longrightarrow> w1 = w \<or> (\<exists>q. w1 = record_call (RetrieverCall q) w)"
  by (auto simp: retrieve_def split: option.splits sum.splits)

lemma chain_invoke_world:
  "chain_invoke llm sys human w = (r, w1) \<Longrightarrow> w1 = record_call (GeneratorCall sys human) w"
  by (auto simp: chain_invoke_def split: sum.splits)

lemma draft_node_world:
  "draft_node e state w = (r, w1) \<Longrightarrow>
     w1 = w \<or> (\<exists>h. w1 = record_call (GeneratorCall DRAFT_SYSTEM h) w)"
  by (auto simp: draft_node_def split: option.splits sum.splits prod.splits
      dest: chain_invoke_world)

lemma check_node_world:
  "check_node state w = (r, w1) \<Longrightarrow> w1 = w \<or> (\<exists>t. w1 = record_call (ComplianceCall t) w)"
  by (auto simp: check_node_def Let_def split: option.splits)

lemma revise_node_world:
  "revise_node e state w = (r, w1) \<Longrightarrow>
     w1 = w \<or> (\<exists>h. w1 = record_call (GeneratorCall REVISION_SYSTEM h) w)"
  by (auto simp: revise_node_def split: option.splits sum.splits prod.splits
      dest: chain_invoke_world)


lemma kinds [simp]:
  "is_revision (RetrieverCall q) = False" "is_revision (ComplianceCall t) = False"
  "is_revision (GeneratorCall DRAFT_SYSTEM h) = False"
  "is_revision (GeneratorCall REVISION_SYSTEM h) = True"
  "is_check (RetrieverCall q) = False" "is_check (ComplianceCall t) = True"
  "is_check (GeneratorCall s h) = False"
  "is_retrieval (RetrieverCall q) = True" "is_retrieval (ComplianceCall t) = False"
  "is_retrieval (GeneratorCall s h) = False"
  "is_drafting (RetrieverCall q) = False" "is_drafting (ComplianceCall t) = False"
  "is_drafting (GeneratorCall DRAFT_SYSTEM h) = True"
  "is_drafting (GeneratorCall REVISION_SYSTEM h) = False"
  "is_generation (RetrieverCall q) = False" "is_generation (ComplianceCall t) = False"
  "is_generation (GeneratorCall s h) = True"
  using system_prompts_differ
  by (auto simp add: is_revision_def is_check_def is_retrieval_def is_drafting_def is_generation_def)

lemma run_node_world:
  assumes "run_node e n state w = (r, w1)"
  shows "w1 = w \<or>
     (n = Retrieve \<and> (\<exists>q. w1 = record_call (RetrieverCall q) w)) \<or>
     (n = Draft \<and> (\<exists>h. w1 = record_call (GeneratorCall DRAFT_SYSTEM h) w)) \<or>
     (n = Check \<and> (\<exists>t. w1 = record_call (ComplianceCall t) w)) \<or>
     (n = Revise \<and> (\<exists>h. w1 = record_call (GeneratorCall REVISION_SYSTEM h) w))"
proof (cases n)
  case Retrieve
  with assms retrieve_world [of e state w r w1] show ?thesis by (simp add: run_node_def)
next
  case Draft
  with assms draft_node_world [of e state w r w1] show ?thesis by (simp add: run_node_def)
next
  case Check
  with assms check_node_world [of state w r w1] show ?thesis by (simp add: run_node_def)
next
  case Revise
  with assms revise_node_world [of e state w r w1] show ?thesis by (simp add: run_node_def)
qed

lemma run_node_calls:
  assumes "run_node e n state w = (r, w1)"
  shows "count_calls is_revision w1 \<le> count_calls is_revision w + (if n = Revise then 1 else 0)"
    and "count_calls is_check w1 \<le> count_calls is_check w + (if n = Check then 1 else 0)"
    and "visited w1 = visited w"
  using run_node_world [OF assms] by (auto simp: count_calls_record)

section \<open>Bounds on revisions and checks\<close>

lemma loop_bounds_aux:
  "graph_loop e body n state w = (res, w') \<Longrightarrow>
   count_calls is_revision w' \<le> count_calls is_revision w +
     (if n = Revise then 1 + nat (max_iterations state - (iteration_count state + 1))
      else nat (max_iterations state - iteration_count state)) \<and>
   count_calls is_check w' \<le> count_calls is_check w +
     (if n = Revise then nat (max_iterations state - (iteration_count state + 1))
      else nat (max_iterations state - iteration_count state)) + 1"
proof (induction e body n state w arbitrary: res w' rule: graph_loop.induct)
  case (1 e body n state w)
  obtain r w1 where rn: "run_node e n state w = (r, w1)" by force
  note cnt = run_node_calls [OF rn]
  show ?case
  proof (cases r)
    case (Inl err)
    with rn "1.prems" have "w' = w1" by (simp add: graph_loop.simps [of e body n state w])
    with cnt show ?thesis by (auto split: if_splits)
  next
    case (Inr delta)
    let ?st1 = "apply_delta state delta"
    let ?w2 = "mark_visited n ?st1 w1"
    note ctr = run_node_counters [OF rn [unfolded Inr]]
    show ?thesis
    proof (cases "body n delta")
      case (Some err)
      with rn Inr "1.prems" have "w' = ?w2" by (simp add: graph_loop.simps [of e body n state w])
      with cnt show ?thesis by (auto split: if_splits)
    next
      case None
      show ?thesis
      proof (cases "next_node n ?st1")
        case nn: None
        with rn Inr None "1.prems" have "w' = ?w2"
          by (simp add: graph_loop.simps [of e body n state w])
        with cnt show ?thesis by (auto split: if_splits)
      next
        case (Some n')
        with rn Inr None "1.prems" have rec: "graph_loop e body n' ?st1 ?w2 = (res, w')"
          by (simp add: graph_loop.simps [of e body n state w])
        have ih: "count_calls is_revision w' \<le> count_calls is_revision ?w2 +
            (if n' = Revise then 1 + nat (max_iterations ?st1 - (iteration_count ?st1 + 1))
             else nat (max_iterations ?st1 - iteration_count ?st1)) \<and>
          count_calls is_check w' \<le> count_calls is_check ?w2 +
            (if n' = Revise then nat (max_iterations ?st1 - (iteration_count ?st1 + 1))
             else nat (max_iterations ?st1 - iteration_count ?st1)) + 1"
          using "1.IH" [OF rn [symmetric] Inr None Some rec] .
        show ?thesis
        proof (cases n)
          case Retrieve
          with Some have "n' = Draft" by (simp add: next_node_def)
          with ih cnt ctr Retrieve show ?thesis
            by (simp add: max_iterations_def iteration_count_def)
        next
          case Draft
          with Some have "n' = Check" by (simp add: next_node_def)
          with ih cnt ctr Draft show ?thesis
            by (simp add: max_iterations_def iteration_count_def)
        next
          case Check
          with Some have d: "decide_next ?st1 = ''revise''" and n': "n' = Revise"
            by (auto simp add: next_node_def split: if_splits)
          from decide_next_revise [OF d] ctr Check
          have lt: "iteration_count state < max_iterations state"
            by (simp add: max_iterations_def iteration_count_def)
          from ih cnt ctr Check n' lt show ?thesis
            by (simp add: max_iterations_def iteration_count_def) linarith
        next
          case Revise
          with Some have "n' = Check" by (simp add: next_node_def)
          with ih cnt ctr Revise show ?thesis
            by (simp add: max_iterations_def iteration_count_def)
        qed
      qed
    qed
  qed
qed

section \<open>Single steps of a run that nobody listens to\<close>

lemma apply_delta_simps:
  "apply_delta st (empty_state\<lparr>st_context := Some c\<rparr>) = st\<lparr>st_context := Some c\<rparr>"
  "apply_delta st (empty_state\<lparr>st_draft := Some d\<rparr>) = st\<lparr>st_draft := Some d\<rparr>"
  "apply_delta st (empty_state\<lparr>st_issues := Some iss\<rparr>) = st\<lparr>st_issues := Some iss\<rparr>"
  "apply_delta st (empty_state\<lparr>st_draft := Some d, st_i := Some k\<rparr>) =
     st\<lparr>st_draft := Some d, st_i := Some k\<rparr>"
  by (simp_all add: apply_delta_def over_def empty_state_def)

lemma world_simps [simp]:
  "calls (record_call c w) = calls w @ [c]"
  "calls (mark_visited n st w) = calls w"
  "visited (mark_visited n st w) = visited w @ [(n, st)]"
  by (simp_all add: record_call_def mark_visited_def)

lemma loop_retrieve:
  assumes "st_task state = Some task" and "retriever e (calls w) task = Inr docs"
  shows "graph_loop e (\<lambda>n d. None) Retrieve state w =
         graph_loop e (\<lambda>n d. None) Draft (state\<lparr>st_context := Some (fmt_context docs)\<rparr>)
           (mark_visited Retrieve (state\<lparr>st_context := Some (fmt_context docs)\<rparr>)
              (record_call (RetrieverCall task) w))"
  using assms
  by (subst graph_loop.simps) (simp add: run_node_def retrieve_def apply_delta_simps next_node_def)

lemma loop_draft:
  assumes "get_llm e = Inr (generator e)" and "st_task state = Some task"
    and "generator e (calls w) DRAFT_SYSTEM (DRAFT_HUMAN task (get_or (st_context state) [])) = Inr d"
  shows "graph_loop e (\<lambda>n d. None) Draft state w =
         graph_loop e (\<lambda>n d. None) Check (state\<lparr>st_draft := Some d\<rparr>)
           (mark_visited Draft (state\<lparr>st_draft := Some d\<rparr>)
              (record_call (GeneratorCall DRAFT_SYSTEM
                 (DRAFT_HUMAN task (get_or (st_context state) []))) w))"
  using assms
  by (subst graph_loop.simps)
    (simp add: run_node_def draft_node_def chain_invoke_def apply_delta_simps next_node_def)

lemma loop_check:
  assumes "st_draft state = Some d"
  shows "graph_loop e (\<lambda>n d. None) Check state w =
         (if decide_next (state\<lparr>st_issues := Some (issues (compliance_check d))\<rparr>) = ''revise''
          then graph_loop e (\<lambda>n d. None) Revise
                 (state\<lparr>st_issues := Some (issues (compliance_check d))\<rparr>)
                 (mark_visited Check (state\<lparr>st_issues := Some (issues (compliance_check d))\<rparr>)
                    (record_call (ComplianceCall d) w))
          else (Inr (state\<lparr>st_issues := Some (issues (compliance_check d))\<rparr>),
                mark_visited Check (state\<lparr>st_issues := Some (issues (compliance_check d))\<rparr>)
                    (record_call (ComplianceCall d) w)))"
  using assms
  by (subst graph_loop.simps)
    (simp add: run_node_def check_node_def Let_def apply_delta_simps next_node_def)

lemma loop_revise:
  assumes "get_llm e = Inr (generator e)" and "st_draft state = Some d"
    and "generator e (calls w) REVISION_SYSTEM
           (REVISION_HUMAN d (issues_str (get_or (st_issues state) []))) = Inr r"
  shows "graph_loop e (\<lambda>n d. None) Revise state w =
         graph_loop e (\<lambda>n d. None) Check
           (state\<lparr>st_draft := Some r, st_i := Some (get_or (st_i state) 0 + 1)\<rparr>)
           (mark_visited Revise (state\<lparr>st_draft := Some r, st_i := Some (get_or (st_i state) 0 + 1)\<rparr>)
              (record_call (GeneratorCall REVISION_SYSTEM
                 (REVISION_HUMAN d (issues_str (get_or (st_issues state) [])))) w))"
  using assms
  by (subst graph_loop.simps)
    (simp add: run_node_def revise_node_def chain_invoke_def apply_delta_simps next_node_def)

section \<open>The claims about the loop\<close>

lemma decide_next_fields:
  "decide_next (state\<lparr>st_issues := Some iss\<rparr>) =
     (if iss = [] then ''end''
      else if max_iterations state \<le> iteration_count state then ''end'' else ''revise'')"
  by (simp add: decide_next_def get_or_def max_iterations_def iteration_count_def)

lemma first_check_fails_at_zero:
  assumes i0: "iteration_count state = 0" and m0: "max_iterations state = 0"
    and task: "st_task state = Some task"
    and key: "get_llm e = Inr (generator e)"
    and docs: "retriever e (calls w) task = Inr docs"
    and gen: "generator e (calls w @ [RetrieverCall task]) DRAFT_SYSTEM
                (DRAFT_HUMAN task (fmt_context docs)) = Inr d"
    and bad: "issues (compliance_check d) \<noteq> []"
  shows "\<exists>final w'. invoke e state w = (Inr final, w') \<and>
           map fst (visited w') = map fst (visited w) @ [Retrieve, Draft, Check] \<and>
           count_calls is_revision w' = count_calls is_revision w \<and>
           st_issues final = Some (issues (compliance_check d)) \<and>
           st_draft final = Some d"
proof -
  let ?s1 = "state\<lparr>st_context := Some (fmt_context docs)\<rparr>"
  let ?w1 = "mark_visited Retrieve ?s1 (record_call (RetrieverCall task) w)"
  let ?s2 = "?s1\<lparr>st_draft := Some d\<rparr>"
  let ?w2 = "mark_visited Draft ?s2
               (record_call (GeneratorCall DRAFT_SYSTEM (DRAFT_HUMAN task (fmt_context docs))) ?w1)"
  let ?s3 = "?s2\<lparr>st_issues := Some (issues (compliance_check d))\<rparr>"
  let ?w3 = "mark_visited Check ?s3 (record_call (ComplianceCall d) ?w2)"
  have a: "invoke e state w = graph_loop e (\<lambda>n d. None) Draft ?s1 ?w1"
    unfolding invoke_def by (rule loop_retrieve [OF task docs])
  have b: "graph_loop e (\<lambda>n d. None) Draft ?s1 ?w1 = graph_loop e (\<lambda>n d. None) Check ?s2 ?w2"
    using loop_draft [of e ?s1 task ?w1 d] key task gen by (simp add: get_or_def)
  have "decide_next ?s3 = ''end''"
    using bad i0 m0 by (simp add: decide_next_fields max_iterations_def iteration_count_def)
  then have c: "graph_loop e (\<lambda>n d. None) Check ?s2 ?w2 = (Inr ?s3, ?w3)"
    using loop_check [of ?s2 d e ?w2] by simp
  have "invoke e state w = (Inr ?s3, ?w3)" using a b c by simp
  moreover have "map fst (visited ?w3) = map fst (visited w) @ [Retrieve, Draft, Check]"
    by simp
  moreover have "count_calls is_revision ?w3 = count_calls is_revision w"
    by (simp add: count_calls_record)
  ultimately show ?thesis by simp
qed

text \<open>
  Claim C1. A run that starts with IterationCount 0 and MaxIterations \<open>N \<ge> 0\<close> makes at
  most \<open>N\<close> revision calls and at most \<open>N + 1\<close> compliance checks, whoever listens to
  it and however the collaborators answer; the run is a total function, so it always
  reaches its end. With \<open>N = 0\<close> and a first draft that fails the check, the run visits
  retrieve, draft and check and stops there, with no revision call and the issues of
  that draft in the final state.
\<close>

theorem revision_loop_bounded:
  "(iteration_count state = 0 \<and> max_iterations state = N \<and> 0 \<le> N \<longrightarrow>
      count_calls is_revision (snd (graph_loop e body Retrieve state w))
        \<le> count_calls is_revision w + nat N \<and>
      count_calls is_check (snd (graph_loop e body Retrieve state w))
        \<le> count_calls is_check w + (nat N + 1)) \<and>
   (iteration_count state = 0 \<and> max_iterations state = 0 \<and> st_task state = Some task \<and>
    get_llm e = Inr (generator e) \<and> retriever e (calls w) task = Inr docs \<and>
    generator e (calls w @ [RetrieverCall task]) DRAFT_SYSTEM
      (DRAFT_HUMAN task (fmt_context docs)) = Inr d \<and>
    issues (compliance_check d) \<noteq> [] \<longrightarrow>
      (\<exists>final w'. invoke e state w = (Inr final, w') \<and>
         map fst (visited w') = map fst (visited w) @ [Retrieve, Draft, Check] \<and>
         count_calls is_revision w' = count_calls is_revision w \<and>
         st_issues final = Some (issues (compliance_check d)) \<and>
         st_draft final = Some d))"
proof (intro conjI impI)
  assume h: "iteration_count state = 0 \<and> max_iterations state = N \<and> 0 \<le> N"
  obtain res w' where r: "graph_loop e body Retrieve state w = (res, w')" by force
  from loop_bounds_aux [OF r] h
  show "count_calls is_revision (snd (graph_loop e body Retrieve state w))
        \<le> count_calls is_revision w + nat N"
    by (simp add: r)
  from loop_bounds_aux [OF r] h
  show "count_calls is_check (snd (graph_loop e body Retrieve state w))
        \<le> count_calls is_check w + (nat N + 1)"
    by (simp add: r)
next
  assume "iteration_count state = 0 \<and> max_iterations state = 0 \<and> st_task state = Some task \<and>
    get_llm e = Inr (generator e) \<and> retriever e (calls w) task = Inr docs \<and>
    generator e (calls w @ [RetrieverCall task]) DRAFT_SYSTEM
      (DRAFT_HUMAN task (fmt_context docs)) = Inr d \<and>
    issues (compliance_check d) \<noteq> []"
  then show "\<exists>final w'. invoke e state w = (Inr final, w') \<and>
         map fst (visited w') = map fst (visited w) @ [Retrieve, Draft, Check] \<and>
         count_calls is_revision w' = count_calls is_revision w \<and>
         st_issues final = Some (issues (compliance_check d)) \<and>
         st_draft final = Some d"
    by (intro first_check_fails_at_zero [where docs = docs and task = task]) simp_all
qed

lemma stub_env_simps [simp]:
  "get_llm (stub_env a) = Inr (generator (stub_env a))"
  "retriever (stub_env a) h q = Inr []"
  "generator (stub_env a) h s m = Inr a"
  by (simp_all add: stub_env_def get_llm_def)

theorem revision_loop_bounded_witness:
  "count_calls is_revision (snd (graph_loop (stub_env ''TBD'') (\<lambda>n d. None) Retrieve
      (empty_state\<lparr>st_task := Some ''task'', st_i := Some 0, st_max_iters := Some 0\<rparr>) fresh)) = 0 \<and>
   (\<exists>final w'. invoke (stub_env ''TBD'')
        (empty_state\<lparr>st_task := Some ''task'', st_i := Some 0, st_max_iters := Some 0\<rparr>) fresh =
        (Inr final, w') \<and>
      map fst (visited w') = [Retrieve, Draft, Check] \<and>
      count_calls is_revision w' = 0 \<and>
      st_issues final = Some [no_placeholders, min_length])"
  using revision_loop_bounded [of
      "empty_state\<lparr>st_task := Some ''task'', st_i := Some 0, st_max_iters := Some 0\<rparr>" 0
      "stub_env ''TBD''" "\<lambda>n d. None" fresh "''task''" "[]" "''TBD''"]
  by (auto simp add: iteration_count_def max_iterations_def get_or_def empty_state_def fresh_def
      count_calls_def check_TBD)

section \<open>The iteration counter stays within its bound\<close>

lemma loop_invariant_aux:
  "graph_loop e body n state w = (res, w') \<Longrightarrow>
   max_iterations state = M \<Longrightarrow>
   (if n = Revise then iteration_count state + 1 \<le> M else iteration_count state \<le> M) \<Longrightarrow>
   (\<forall>(m, s) \<in> set (visited w). iteration_count s \<le> M \<and> max_iterations s = M) \<Longrightarrow>
   (\<forall>(m, s) \<in> set (visited w'). iteration_count s \<le> M \<and> max_iterations s = M) \<and>
   (\<forall>s. res = Inr s \<longrightarrow> iteration_count s \<le> M \<and> max_iterations s = M)"
proof (induction e body n state w arbitrary: res w' rule: graph_loop.induct)
  case (1 e body n state w)
  obtain r w1 where rn: "run_node e n state w = (r, w1)" by force
  note vis = run_node_calls(3) [OF rn]
  show ?case
  proof (cases r)
    case (Inl err)
    with rn "1.prems"(1) have "w' = w1" "res = Inl err"
      by (simp_all add: graph_loop.simps [of e body n state w])
    with vis "1.prems"(4) show ?thesis by simp
  next
    case (Inr delta)
    let ?st1 = "apply_delta state delta"
    let ?w2 = "mark_visited n ?st1 w1"
    note ctr = run_node_counters [OF rn [unfolded Inr]]
    from ctr "1.prems"(2) have max1: "max_iterations ?st1 = M"
      by (simp add: max_iterations_def)
    from ctr "1.prems"(3) have inv1: "iteration_count ?st1 \<le> M"
      by (simp add: iteration_count_def split: if_splits)
    from vis "1.prems"(4) inv1 max1
    have vis2: "\<forall>(m, s) \<in> set (visited ?w2). iteration_count s \<le> M \<and> max_iterations s = M"
      by (simp add: mark_visited_def)
    show ?thesis
    proof (cases "body n delta")
      case (Some err)
      with rn Inr "1.prems"(1) have "w' = ?w2" "res = Inl err"
        by (simp_all add: graph_loop.simps [of e body n state w])
      with vis2 show ?thesis by simp
    next
      case None
      show ?thesis
      proof (cases "next_node n ?st1")
        case nn: None
        with rn Inr None "1.prems"(1) have "w' = ?w2" "res = Inr ?st1"
          by (simp_all add: graph_loop.simps [of e body n state w])
        with vis2 inv1 max1 show ?thesis by simp
      next
        case (Some n')
        with rn Inr None "1.prems"(1) have rec: "graph_loop e body n' ?st1 ?w2 = (res, w')"
          by (simp add: graph_loop.simps [of e body n state w])
        have pre: "if n' = Revise then iteration_count ?st1 + 1 \<le> M
                   else iteration_count ?st1 \<le> M"
        proof (cases "n' = Revise")
          case True
          with Some have "decide_next ?st1 = ''revise''"
            by (cases n) (auto simp add: next_node_def split: if_splits)
          from decide_next_revise [OF this] True max1 show ?thesis
            by (simp add: max_iterations_def iteration_count_def)
        next
          case False
          with inv1 show ?thesis by simp
        qed
        show ?thesis
          using "1.IH" [OF rn [symmetric] Inr None Some rec max1 pre vis2] .
      qed
    qed
  qed
qed

lemma two_failing_rounds:
  assumes i0: "iteration_count state = 0" and m2: "max_iterations state = 2"
    and task: "st_task state = Some task"
    and key: "get_llm e = Inr (generator e)"
    and docs: "retriever e (calls w) task = Inr docs"
    and gen: "\<forall>h s m. \<exists>d. generator e h s m = Inr d \<and> issues (compliance_check d) \<noteq> []"
  shows "\<exists>final w'. invoke e state w = (Inr final, w') \<and>
           iteration_count final = 2 \<and>
           count_calls is_revision w' = count_calls is_revision w + 2 \<and>
           count_calls is_check w' = count_calls is_check w + 3 \<and>
           count_calls is_retrieval w' = count_calls is_retrieval w + 1 \<and>
           count_calls is_drafting w' = count_calls is_drafting w + 1 \<and>
           map fst (visited w') =
             map fst (visited w) @ [Retrieve, Draft, Check, Revise, Check, Revise, Check] \<and>
           (\<exists>h m d. calls w' = h @ [GeneratorCall REVISION_SYSTEM m, ComplianceCall d] \<and>
              generator e h REVISION_SYSTEM m = Inr d \<and> st_draft final = Some d) \<and>
           st_issues final \<noteq> Some [] \<and> st_issues final \<noteq> None"
proof -
  let ?L = "graph_loop e (\<lambda>n d. None)"
  let ?s1 = "state\<lparr>st_context := Some (fmt_context docs)\<rparr>"
  let ?w1 = "mark_visited Retrieve ?s1 (record_call (RetrieverCall task) w)"
  let ?p0 = "DRAFT_HUMAN task (fmt_context docs)"
  obtain d0 where d0: "generator e (calls ?w1) DRAFT_SYSTEM ?p0 = Inr d0"
    and bad0: "issues (compliance_check d0) \<noteq> []" using gen by blast
  let ?s2 = "?s1\<lparr>st_draft := Some d0\<rparr>"
  let ?w2 = "mark_visited Draft ?s2 (record_call (GeneratorCall DRAFT_SYSTEM ?p0) ?w1)"
  let ?s3 = "?s2\<lparr>st_issues := Some (issues (compliance_check d0))\<rparr>"
  let ?w3 = "mark_visited Check ?s3 (record_call (ComplianceCall d0) ?w2)"
  let ?p1 = "REVISION_HUMAN d0 (issues_str (issues (compliance_check d0)))"
  obtain d1 where d1: "generator e (calls ?w3) REVISION_SYSTEM ?p1 = Inr d1"
    and bad1: "issues (compliance_check d1) \<noteq> []" using gen by blast
  let ?s4 = "?s3\<lparr>st_draft := Some d1, st_i := Some 1\<rparr>"
  let ?w4 = "mark_visited Revise ?s4 (record_call (GeneratorCall REVISION_SYSTEM ?p1) ?w3)"
  let ?s5 = "?s4\<lparr>st_issues := Some (issues (compliance_check d1))\<rparr>"
  let ?w5 = "mark_visited Check ?s5 (record_call (ComplianceCall d1) ?w4)"
  let ?p2 = "REVISION_HUMAN d1 (issues_str (issues (compliance_check d1)))"
  obtain d2 where d2: "generator e (calls ?w5) REVISION_SYSTEM ?p2 = Inr d2"
    and bad2: "issues (compliance_check d2) \<noteq> []" using gen by blast
  let ?s6 = "?s5\<lparr>st_draft := Some d2, st_i := Some 2\<rparr>"
  let ?w6 = "mark_visited Revise ?s6 (record_call (GeneratorCall REVISION_SYSTEM ?p2) ?w5)"
  let ?s7 = "?s6\<lparr>st_issues := Some (issues (compliance_check d2))\<rparr>"
  let ?w7 = "mark_visited Check ?s7 (record_call (ComplianceCall d2) ?w6)"
  have geti: "get_or (st_i state) 0 = 0" and getm: "get_or (st_max_iters state) 2 = 2"
    using i0 m2 by (simp_all add: iteration_count_def max_iterations_def)
  have a: "invoke e state w = ?L Draft ?s1 ?w1"
    unfolding invoke_def by (rule loop_retrieve [OF task docs])
  have b: "?L Draft ?s1 ?w1 = ?L Check ?s2 ?w2"
    using loop_draft [of e ?s1 task ?w1 d0] key task d0 by (simp add: get_or_def)
  have "decide_next ?s3 = ''revise''"
    using bad0 i0 m2 by (simp add: decide_next_fields max_iterations_def iteration_count_def)
  then have c: "?L Check ?s2 ?w2 = ?L Revise ?s3 ?w3"
    using loop_check [of ?s2 d0 e ?w2] by simp
  have d: "?L Revise ?s3 ?w3 = ?L Check ?s4 ?w4"
    using loop_revise [of e ?s3 d0 ?w3 d1] key d1 geti by (simp add: get_or_def)
  have "decide_next ?s5 = ''revise''"
    using bad1 m2 by (simp add: decide_next_fields max_iterations_def iteration_count_def get_or_def)
  then have f: "?L Check ?s4 ?w4 = ?L Revise ?s5 ?w5"
    using loop_check [of ?s4 d1 e ?w4] by simp
  have g: "?L Revise ?s5 ?w5 = ?L Check ?s6 ?w6"
    using loop_revise [of e ?s5 d1 ?w5 d2] key d2 by (simp add: get_or_def)
  have "decide_next ?s7 = ''end''"
    using bad2 m2 by (simp add: decide_next_fields max_iterations_def iteration_count_def get_or_def)
  then have h: "?L Check ?s6 ?w6 = (Inr ?s7, ?w7)"
    using loop_check [of ?s6 d2 e ?w6] by simp
  have run: "invoke e state w = (Inr ?s7, ?w7)"
    using a b c d f g h by simp
  have c1: "iteration_count ?s7 = 2" by (simp add: iteration_count_def get_or_def)
  have c2: "count_calls is_revision ?w7 = count_calls is_revision w + 2"
    by (simp add: count_calls_record)
  have c3: "count_calls is_check ?w7 = count_calls is_check w + 3"
    by (simp add: count_calls_record)
  have c3a: "count_calls is_retrieval ?w7 = count_calls is_retrieval w + 1"
    by (simp add: count_calls_record)
  have c3b: "count_calls is_drafting ?w7 = count_calls is_drafting w + 1"
    by (simp add: count_calls_record)
  have c4: "map fst (visited ?w7) =
      map fst (visited w) @ [Retrieve, Draft, Check, Revise, Check, Revise, Check]" by simp
  have c5: "calls ?w7 = calls ?w5 @ [GeneratorCall REVISION_SYSTEM ?p2, ComplianceCall d2]"
    by simp
  have c6: "st_draft ?s7 = Some d2" by simp
  have c7: "st_issues ?s7 \<noteq> Some [] \<and> st_issues ?s7 \<noteq> None" using bad2 by simp
  from c5 d2 c6 have c8: "\<exists>h m d. calls ?w7 = h @ [GeneratorCall REVISION_SYSTEM m, ComplianceCall d] \<and>
              generator e h REVISION_SYSTEM m = Inr d \<and> st_draft ?s7 = Some d" by blast
  from run c1 c2 c3 c3a c3b c4 c8 c7 show ?thesis by blast
qed

text \<open>
  Claim C2. In a run that starts with IterationCount no greater than MaxIterations (a run
  starts at 0, with a bound that is not negative), every state that the graph holds after
  a node, and the final state, has IterationCount no greater than MaxIterations, and
  MaxIterations never changes. With MaxIterations 2 and a generator whose every text fails
  the check, the run makes exactly 2 revision calls and ends with IterationCount 2 and
  the text of the second revision as its draft.
\<close>

theorem iteration_count_bounded:
  "(iteration_count state \<le> max_iterations state \<and> visited w = [] \<longrightarrow>
      (\<forall>(n, s) \<in> set (visited (snd (graph_loop e body Retrieve state w))).
          iteration_count s \<le> max_iterations state \<and> max_iterations s = max_iterations state) \<and>
      (\<forall>s. fst (graph_loop e body Retrieve state w) = Inr s \<longrightarrow>
          iteration_count s \<le> max_iterations state \<and> max_iterations s = max_iterations state)) \<and>
   (iteration_count state = 0 \<and> max_iterations state = 2 \<and> st_task state = Some task \<and>
    get_llm e = Inr (generator e) \<and> retriever e (calls w) task = Inr docs \<and>
    (\<forall>h s m. \<exists>d. generator e h s m = Inr d \<and> issues (compliance_check d) \<noteq> []) \<longrightarrow>
      (\<exists>final w'. invoke e state w = (Inr final, w') \<and>
         iteration_count final = 2 \<and>
         count_calls is_revision w' = count_calls is_revision w + 2 \<and>
         map fst (visited w') =
           map fst (visited w) @ [Retrieve, Draft, Check, Revise, Check, Revise, Check] \<and>
         (\<exists>h m d. calls w' = h @ [GeneratorCall REVISION_SYSTEM m, ComplianceCall d] \<and>
            generator e h REVISION_SYSTEM m = Inr d \<and> st_draft final = Some d)))"
proof (intro conjI impI)
  assume h: "iteration_count state \<le> max_iterations state \<and> visited w = []"
  obtain res w' where r: "graph_loop e body Retrieve state w = (res, w')" by force
  have "(\<forall>(m, s) \<in> set (visited w'). iteration_count s \<le> max_iterations state \<and>
            max_iterations s = max_iterations state) \<and>
        (\<forall>s. res = Inr s \<longrightarrow> iteration_count s \<le> max_iterations state \<and>
            max_iterations s = max_iterations state)"
    using h by (intro loop_invariant_aux [OF r]) simp_all
  then show "\<forall>(n, s) \<in> set (visited (snd (graph_loop e body Retrieve state w))).
          iteration_count s \<le> max_iterations state \<and> max_iterations s = max_iterations state"
    and "\<forall>s. fst (graph_loop e body Retrieve state w) = Inr s \<longrightarrow>
          iteration_count s \<le> max_iterations state \<and> max_iterations s = max_iterations state"
    by (simp_all add: r)
next
  assume "iteration_count state = 0 \<and> max_iterations state = 2 \<and> st_task state = Some task \<and>
    get_llm e = Inr (generator e) \<and> retriever e (calls w) task = Inr docs \<and>
    (\<forall>h s m. \<exists>d. generator e h s m = Inr d \<and> issues (compliance_check d) \<noteq> [])"
  then have "\<exists>final w'. invoke e state w = (Inr final, w') \<and>
           iteration_count final = 2 \<and>
           count_calls is_revision w' = count_calls is_revision w + 2 \<and>
           count_calls is_check w' = count_calls is_check w + 3 \<and>
           count_calls is_retrieval w' = count_calls is_retrieval w + 1 \<and>
           count_calls is_drafting w' = count_calls is_drafting w + 1 \<and>
           map fst (visited w') =
             map fst (visited w) @ [Retrieve, Draft, Check, Revise, Check, Revise, Check] \<and>
           (\<exists>h m d. calls w' = h @ [GeneratorCall REVISION_SYSTEM m, ComplianceCall d] \<and>
              generator e h REVISION_SYSTEM m = Inr d \<and> st_draft final = Some d) \<and>
           st_issues final \<noteq> Some [] \<and> st_issues final \<noteq> None"
    by (intro two_failing_rounds [where task = task and docs = docs]) simp_all
  then show "\<exists>final w'. invoke e state w = (Inr final, w') \<and>
         iteration_count final = 2 \<and>
         count_calls is_revision w' = count_calls is_revision w + 2 \<and>
         map fst (visited w') =
           map fst (visited w) @ [Retrieve, Draft, Check, Revise, Check, Revise, Check] \<and>
         (\<exists>h m d. calls w' = h @ [GeneratorCall REVISION_SYSTEM m, ComplianceCall d] \<and>
            generator e h REVISION_SYSTEM m = Inr d \<and> st_draft final = Some d)"
    by blast
qed

lemma initial_state_simps [simp]:
  "iteration_count (initial_state t) = 0" "max_iterations (initial_state t) = 2"
  "st_task (initial_state t) = Some t"
  by (simp_all add: initial_state_def iteration_count_def max_iterations_def get_or_def empty_state_def)

lemma fresh_simps [simp]: "calls fresh = []" "visited fresh = []" "count_calls p fresh = 0"
  by (simp_all add: fresh_def count_calls_def)

theorem iteration_count_bounded_witness:
  "\<exists>final w'. invoke (stub_env ''TBD'') (initial_state ''task'') fresh = (Inr final, w') \<and>
      iteration_count final = 2 \<and> count_calls is_revision w' = 2 \<and>
      map fst (visited w') = [Retrieve, Draft, Check, Revise, Check, Revise, Check] \<and>
      st_draft final = Some ''TBD'' \<and>
      (\<forall>(n, s) \<in> set (visited w'). iteration_count s \<le> 2)"
proof -
  note inst = iteration_count_bounded [of "initial_state ''task''" fresh "stub_env ''TBD''"
      "\<lambda>n d. None" "''task''" "[]"]
  have bad: "\<forall>h s m. \<exists>d. generator (stub_env ''TBD'') h s m = Inr d \<and>
      issues (compliance_check d) \<noteq> []"
    by (simp add: check_TBD)
  from inst bad obtain final w' where
    run: "invoke (stub_env ''TBD'') (initial_state ''task'') fresh = (Inr final, w')"
    and i2: "iteration_count final = 2" and r2: "count_calls is_revision w' = 2"
    and v: "map fst (visited w') = [Retrieve, Draft, Check, Revise, Check, Revise, Check]"
    and d: "\<exists>h m d. calls w' = h @ [GeneratorCall REVISION_SYSTEM m, ComplianceCall d] \<and>
            generator (stub_env ''TBD'') h REVISION_SYSTEM m = Inr d \<and> st_draft final = Some d"
    by auto
  from d have dr: "st_draft final = Some ''TBD''" by auto
  from inst have "\<forall>(n, s) \<in> set (visited (snd (graph_loop (stub_env ''TBD'') (\<lambda>n d. None) Retrieve
      (initial_state ''task'') fresh))). iteration_count s \<le> 2"
    by auto
  with run have "\<forall>(n, s) \<in> set (visited w'). iteration_count s \<le> 2"
    by (simp add: invoke_def)
  with run i2 r2 v dr show ?thesis
    by - (rule exI [where x = final], rule exI [where x = w'], simp)
qed

section \<open>The router\<close>

text \<open>
  Claim C4. The router after a check: with no issue on the list (or no list at all) it
  answers "end"; with issues left and IterationCount at or above MaxIterations it answers
  "end" as well, and a run that stops this way returns the state with those issues in it;
  with issues left and IterationCount below MaxIterations it answers "revise". The graph
  maps "end" to its end and "revise" to the revise node. When the state carries no
  \<open>max_iters\<close>, the bound is 2.
\<close>

theorem router_decision:
  "(st_issues state = None \<or> st_issues state = Some [] \<longrightarrow>
      decide_next state = ''end'' \<and> next_node Check state = None) \<and>
   (st_issues state = Some iss \<and> iss \<noteq> [] \<and> st_max_iters state = Some m \<and>
    iteration_count state \<ge> m \<longrightarrow>
      decide_next state = ''end'' \<and> next_node Check state = None) \<and>
   (st_issues state = Some iss \<and> iss \<noteq> [] \<and> st_max_iters state = Some m \<and>
    iteration_count state < m \<longrightarrow>
      decide_next state = ''revise'' \<and> next_node Check state = Some Revise) \<and>
   (st_issues state = Some iss \<and> iss \<noteq> [] \<and> st_max_iters state = None \<longrightarrow>
      decide_next state = (if iteration_count state \<ge> 2 then ''end'' else ''revise'') \<and>
      next_node Check state = (if iteration_count state \<ge> 2 then None else Some Revise)) \<and>
   (st_draft state = Some d \<and> issues (compliance_check d) \<noteq> [] \<and>
    iteration_count state \<ge> max_iterations state \<longrightarrow>
      fst (graph_loop e (\<lambda>n d. None) Check state w) =
        Inr (state\<lparr>st_issues := Some (issues (compliance_check d))\<rparr>))"
proof (intro conjI impI)
  assume "st_issues state = None \<or> st_issues state = Some []"
  then show "decide_next state = ''end''" "next_node Check state = None"
    by (auto simp add: decide_next_def next_node_def get_or_def)
next
  assume "st_issues state = Some iss \<and> iss \<noteq> [] \<and> st_max_iters state = Some m \<and>
    iteration_count state \<ge> m"
  then show "decide_next state = ''end''" "next_node Check state = None"
    by (auto simp add: decide_next_def next_node_def get_or_def iteration_count_def)
next
  assume "st_issues state = Some iss \<and> iss \<noteq> [] \<and> st_max_iters state = Some m \<and>
    iteration_count state < m"
  then show "decide_next state = ''revise''" "next_node Check state = Some Revise"
    by (auto simp add: decide_next_def next_node_def get_or_def iteration_count_def)
next
  assume "st_issues state = Some iss \<and> iss \<noteq> [] \<and> st_max_iters state = None"
  then show "decide_next state = (if iteration_count state \<ge> 2 then ''end'' else ''revise'')"
    "next_node Check state = (if iteration_count state \<ge> 2 then None else Some Revise)"
    by (auto simp add: decide_next_def next_node_def get_or_def iteration_count_def)
next
  assume h: "st_draft state = Some d \<and> issues (compliance_check d) \<noteq> [] \<and>
    iteration_count state \<ge> max_iterations state"
  then have "decide_next (state\<lparr>st_issues := Some (issues (compliance_check d))\<rparr>) = ''end''"
    by (simp add: decide_next_fields)
  with h show "fst (graph_loop e (\<lambda>n d. None) Check state w) =
        Inr (state\<lparr>st_issues := Some (issues (compliance_check d))\<rparr>)"
    using loop_check [of state d e w] by simp
qed

theorem router_decision_witness:
  "decide_next (empty_state\<lparr>st_issues := Some [min_length], st_i := Some 2, st_max_iters := Some 2\<rparr>)
     = ''end'' \<and>
   decide_next (empty_state\<lparr>st_issues := Some [min_length], st_i := Some 1, st_max_iters := Some 2\<rparr>)
     = ''revise'' \<and>
   decide_next (empty_state\<lparr>st_issues := Some [min_length], st_i := Some 1\<rparr>) = ''revise'' \<and>
   decide_next (empty_state\<lparr>st_issues := Some [min_length], st_i := Some 2\<rparr>) = ''end'' \<and>
   decide_next (empty_state\<lparr>st_issues := Some [], st_i := Some 0\<rparr>) = ''end'' \<and>
   fst (graph_loop (stub_env ''TBD'') (\<lambda>n d. None) Check
          (empty_state\<lparr>st_draft := Some ''TBD'', st_i := Some 2\<rparr>) fresh) =
     Inr (empty_state\<lparr>st_draft := Some ''TBD'', st_i := Some 2,
            st_issues := Some [no_placeholders, min_length]\<rparr>)"
proof -
  have a: "decide_next (empty_state\<lparr>st_issues := Some [min_length], st_i := Some 2,
      st_max_iters := Some 2\<rparr>) = ''end''"
    using router_decision [of "empty_state\<lparr>st_issues := Some [min_length], st_i := Some 2,
      st_max_iters := Some 2\<rparr>" "[min_length]" 2]
    by (simp add: empty_state_def iteration_count_def get_or_def)
  have b: "decide_next (empty_state\<lparr>st_issues := Some [min_length], st_i := Some 1,
      st_max_iters := Some 2\<rparr>) = ''revise''"
    using router_decision [of "empty_state\<lparr>st_issues := Some [min_length], st_i := Some 1,
      st_max_iters := Some 2\<rparr>" "[min_length]" 2]
    by (simp add: empty_state_def iteration_count_def get_or_def)
  have c: "decide_next (empty_state\<lparr>st_issues := Some [min_length], st_i := Some 1\<rparr>) = ''revise''"
    using router_decision [of "empty_state\<lparr>st_issues := Some [min_length], st_i := Some 1\<rparr>"
      "[min_length]"]
    by (simp add: empty_state_def iteration_count_def get_or_def)
  have d: "decide_next (empty_state\<lparr>st_issues := Some [min_length], st_i := Some 2\<rparr>) = ''end''"
    using router_decision [of "empty_state\<lparr>st_issues := Some [min_length], st_i := Some 2\<rparr>"
      "[min_length]"]
    by (simp add: empty_state_def iteration_count_def get_or_def)
  have e: "decide_next (empty_state\<lparr>st_issues := Some [], st_i := Some 0\<rparr>) = ''end''"
    using router_decision [of "empty_state\<lparr>st_issues := Some [], st_i := Some 0\<rparr>"]
    by (simp add: empty_state_def)
  have f: "fst (graph_loop (stub_env ''TBD'') (\<lambda>n d. None) Check
          (empty_state\<lparr>st_draft := Some ''TBD'', st_i := Some 2\<rparr>) fresh) =
     Inr (empty_state\<lparr>st_draft := Some ''TBD'', st_i := Some 2,
            st_issues := Some [no_placeholders, min_length]\<rparr>)"
    using router_decision [of "empty_state\<lparr>st_draft := Some ''TBD'', st_i := Some 2\<rparr>"
      _ _ "''TBD''" "stub_env ''TBD''" fresh]
    by (simp add: empty_state_def iteration_count_def max_iterations_def get_or_def check_TBD)
  from a b c d e f show ?thesis by simp
qed

section \<open>A missing credential\<close>

lemma get_llm_missing:
  "environ e ''ANTHROPIC_API_KEY'' = None \<or> environ e ''ANTHROPIC_API_KEY'' = Some [] \<Longrightarrow>
   get_llm e = Inl (RuntimeError ''Please set ANTHROPIC_API_KEY environment variable.'')"
  by (auto simp add: get_llm_def)

lemma loop_retrieve_fails:
  assumes "st_task state = Some task" and "retriever e (calls w) task = Inl msg"
  shows "graph_loop e body Retrieve state w =
           (Inl (RetrieverError msg), record_call (RetrieverCall task) w)"
  using assms by (subst graph_loop.simps) (simp add: run_node_def retrieve_def)

lemma loop_draft_no_llm:
  assumes "get_llm e = Inl err"
  shows "graph_loop e body Draft state w = (Inl err, w)"
  using assms by (subst graph_loop.simps) (simp add: run_node_def draft_node_def)

lemma run_demo_plain:
  "run_demo e task False ev w =
     (case invoke e (initial_state (task_or_default task)) w of
        (Inl err, w2) \<Rightarrow> (Inl err, w2)
      | (Inr final_state, w2) \<Rightarrow> (Inr (get_or (st_draft final_state) []), w2))"
  by (simp add: run_demo_def Let_def)

lemma invoke_no_llm:
  assumes nollm: "get_llm e = Inl err" and task: "st_task state = Some task"
  shows "(\<exists>msg. retriever e (calls w) task = Inl msg \<and>
            invoke e state w = (Inl (RetrieverError msg), record_call (RetrieverCall task) w)) \<or>
         (\<exists>docs. retriever e (calls w) task = Inr docs \<and>
            invoke e state w =
              (Inl err, mark_visited Retrieve (state\<lparr>st_context := Some (fmt_context docs)\<rparr>)
                          (record_call (RetrieverCall task) w)))"
proof (cases "retriever e (calls w) task")
  case (Inl msg)
  then show ?thesis
    using loop_retrieve_fails [OF task Inl] by (simp add: invoke_def)
next
  case (Inr docs)
  then show ?thesis
    using loop_retrieve [OF task Inr] loop_draft_no_llm [OF nollm] by (simp add: invoke_def)
qed

text \<open>
  Claim C9. With \<open>ANTHROPIC_API_KEY\<close> unset or empty, \<open>get_llm\<close> raises its own
  \<open>RuntimeError\<close>, and so do the draft and the revise node before they call anything. A
  demo run then ends in an error that is not an error of a generation call: no
  generation call is ever made, the one retrieval call that precedes the draft node is
  not repeated, and when that retrieval succeeds the error of the run is this
  \<open>RuntimeError\<close>. With the credential set, a generation call that raises ends the draft
  node with the generator's own error instead, after the call.
\<close>

theorem missing_credential_fatal:
  "(environ e ''ANTHROPIC_API_KEY'' = None \<or> environ e ''ANTHROPIC_API_KEY'' = Some [] \<longrightarrow>
      get_llm e = Inl (RuntimeError ''Please set ANTHROPIC_API_KEY environment variable.'') \<and>
      draft_node e state w =
        (Inl (RuntimeError ''Please set ANTHROPIC_API_KEY environment variable.''), w) \<and>
      revise_node e state w =
        (Inl (RuntimeError ''Please set ANTHROPIC_API_KEY environment variable.''), w) \<and>
      (\<exists>err. fst (run_demo e task False ev w) = Inl err \<and> (\<forall>m. err \<noteq> GeneratorError m)) \<and>
      count_calls is_generation (snd (run_demo e task False ev w)) = count_calls is_generation w \<and>
      count_calls is_retrieval (snd (run_demo e task False ev w)) = count_calls is_retrieval w + 1 \<and>
      (retriever e (calls w) (task_or_default task) = Inr docs \<longrightarrow>
         fst (run_demo e task False ev w) =
           Inl (RuntimeError ''Please set ANTHROPIC_API_KEY environment variable.''))) \<and>
   (environ e ''ANTHROPIC_API_KEY'' = Some k \<and> k \<noteq> [] \<and> st_task state = Some t \<and>
    generator e (calls w) DRAFT_SYSTEM (DRAFT_HUMAN t (get_or (st_context state) [])) = Inl m \<longrightarrow>
      draft_node e state w =
        (Inl (GeneratorError m),
         record_call (GeneratorCall DRAFT_SYSTEM (DRAFT_HUMAN t (get_or (st_context state) []))) w))"
proof (intro conjI impI)
  let ?err = "RuntimeError ''Please set ANTHROPIC_API_KEY environment variable.''"
  let ?t = "task_or_default task"
  assume "environ e ''ANTHROPIC_API_KEY'' = None \<or> environ e ''ANTHROPIC_API_KEY'' = Some []"
  then have g: "get_llm e = Inl ?err" by (rule get_llm_missing)
  then show "get_llm e = Inl ?err" .
  from g show "draft_node e state w = (Inl ?err, w)" by (simp add: draft_node_def)
  from g show "revise_node e state w = (Inl ?err, w)" by (simp add: revise_node_def)
  have task: "st_task (initial_state ?t) = Some ?t" by simp
  note cases = invoke_no_llm [OF g task, of w]
  from cases show "\<exists>err. fst (run_demo e task False ev w) = Inl err \<and> (\<forall>m. err \<noteq> GeneratorError m)"
    by (auto simp add: run_demo_plain)
  from cases show "count_calls is_generation (snd (run_demo e task False ev w))
      = count_calls is_generation w"
    by (auto simp add: run_demo_plain count_calls_record)
  from cases show "count_calls is_retrieval (snd (run_demo e task False ev w))
      = count_calls is_retrieval w + 1"
    by (auto simp add: run_demo_plain count_calls_record)
  assume "retriever e (calls w) (task_or_default task) = Inr docs"
  with cases show "fst (run_demo e task False ev w) = Inl ?err"
    by (auto simp add: run_demo_plain)
next
  assume "environ e ''ANTHROPIC_API_KEY'' = Some k \<and> k \<noteq> [] \<and> st_task state = Some t \<and>
    generator e (calls w) DRAFT_SYSTEM (DRAFT_HUMAN t (get_or (st_context state) [])) = Inl m"
  then show "draft_node e state w =
        (Inl (GeneratorError m),
         record_call (GeneratorCall DRAFT_SYSTEM (DRAFT_HUMAN t (get_or (st_context state) []))) w)"
    by (simp add: draft_node_def get_llm_def chain_invoke_def)
qed

lemma no_key_env_simps [simp]:
  "environ (no_key_env a) = Map.empty"
  "retriever (no_key_env a) h q = Inr []"
  "generator (no_key_env a) h s m = Inr a"
  by (simp_all add: no_key_env_def stub_env_def)

theorem missing_credential_fatal_witness:
  "get_llm (no_key_env ''text'') =
     Inl (RuntimeError ''Please set ANTHROPIC_API_KEY environment variable.'') \<and>
   fst (run_demo (no_key_env ''text'') (Some ''task'') False None fresh) =
     Inl (RuntimeError ''Please set ANTHROPIC_API_KEY environment variable.'') \<and>
   count_calls is_generation (snd (run_demo (no_key_env ''text'') (Some ''task'') False None fresh)) = 0 \<and>
   count_calls is_retrieval (snd (run_demo (no_key_env ''text'') (Some ''task'') False None fresh)) = 1 \<and>
   draft_node ((stub_env ''text'')\<lparr>generator := \<lambda>h s m. Inl ''overloaded''\<rparr>)
      (initial_state ''task'') fresh =
     (Inl (GeneratorError ''overloaded''),
      record_call (GeneratorCall DRAFT_SYSTEM (DRAFT_HUMAN ''task'' [])) fresh)"
proof -
  have a: "get_llm (no_key_env ''text'') =
      Inl (RuntimeError ''Please set ANTHROPIC_API_KEY environment variable.'') \<and>
    fst (run_demo (no_key_env ''text'') (Some ''task'') False None fresh) =
      Inl (RuntimeError ''Please set ANTHROPIC_API_KEY environment variable.'') \<and>
    count_calls is_generation (snd (run_demo (no_key_env ''text'') (Some ''task'') False None fresh)) = 0 \<and>
    count_calls is_retrieval (snd (run_demo (no_key_env ''text'') (Some ''task'') False None fresh)) = 1"
    using missing_credential_fatal [of "no_key_env ''text''" _ fresh "Some ''task''" None "[]"]
    by (simp add: task_or_default_def)
  have b: "draft_node ((stub_env ''text'')\<lparr>generator := \<lambda>h s m. Inl ''overloaded''\<rparr>)
      (initial_state ''task'') fresh =
     (Inl (GeneratorError ''overloaded''),
      record_call (GeneratorCall DRAFT_SYSTEM (DRAFT_HUMAN ''task'' [])) fresh)"
    using missing_credential_fatal [of "(stub_env ''text'')\<lparr>generator := \<lambda>h s m. Inl ''overloaded''\<rparr>"
        "initial_state ''task''" fresh _ _ _ "''key''" "''task''" "''overloaded''"]
    by (simp add: stub_env_def initial_state_def empty_state_def get_or_def)
  from a b show ?thesis by simp
qed

section \<open>A demo run with streaming\<close>

lemma loop_retrieve_streamed:
  assumes "st_task state = Some task" and "retriever e (calls w) task = Inr docs"
  shows "graph_loop e stream_body Retrieve state w =
           (Inl (NameError ''dt''),
            mark_visited Retrieve (state\<lparr>st_context := Some (fmt_context docs)\<rparr>)
              (record_call (RetrieverCall task) w))"
  using assms
  by (subst graph_loop.simps)
    (simp add: run_node_def retrieve_def apply_delta_simps stream_body_def)

lemma run_demo_streamed:
  assumes "retriever e (calls w) (task_or_default task) = Inr docs"
  shows "run_demo e task True ev w =
           (Inl (NameError ''dt''),
            mark_visited Retrieve
              ((initial_state (task_or_default task))\<lparr>st_context := Some (fmt_context docs)\<rparr>)
              (record_call (RetrieverCall (task_or_default task)) w))"
  using loop_retrieve_streamed [of "initial_state (task_or_default task)" "task_or_default task"
      e w docs] assms
  by (simp add: run_demo_def Let_def stream_run_def)

text \<open>
  Claim C3, evaluated where it fails. With the stand-in collaborators, the demo run
  without streaming returns its text after one retrieval call and one drafting call. The
  same run with streaming switched on ends in \<open>NameError\<close> on the first event: one
  retrieval call has been made, no drafting call, and no text is returned.
\<close>

theorem streamed_demo_run_fails:
  "fst (run_demo (stub_env ''TBD'') None True None fresh) = Inl (NameError ''dt'') \<and>
   calls (snd (run_demo (stub_env ''TBD'') None True None fresh)) = [RetrieverCall DEFAULT_TASK] \<and>
   count_calls is_drafting (snd (run_demo (stub_env ''TBD'') None True None fresh)) = 0 \<and>
   fst (run_demo (stub_env ''TBD'') None False None fresh) = Inr ''TBD'' \<and>
   count_calls is_retrieval (snd (run_demo (stub_env ''TBD'') None False None fresh)) = 1 \<and>
   count_calls is_drafting (snd (run_demo (stub_env ''TBD'') None False None fresh)) = 1"
proof -
  let ?e = "stub_env ''TBD''"
  have t: "task_or_default None = DEFAULT_TASK" by (simp add: task_or_default_def)
  have s: "run_demo ?e None True None fresh =
      (Inl (NameError ''dt''),
       mark_visited Retrieve ((initial_state DEFAULT_TASK)\<lparr>st_context := Some (fmt_context [])\<rparr>)
         (record_call (RetrieverCall DEFAULT_TASK) fresh))"
    using run_demo_streamed [of ?e fresh None "[]" None] by (simp add: t)
  have bad: "\<forall>h s m. \<exists>d. generator ?e h s m = Inr d \<and> issues (compliance_check d) \<noteq> []"
    by (simp add: check_TBD)
  from two_failing_rounds [of "initial_state DEFAULT_TASK" DEFAULT_TASK ?e fresh "[]"] bad
  obtain final w' where run: "invoke ?e (initial_state DEFAULT_TASK) fresh = (Inr final, w')"
    and r1: "count_calls is_retrieval w' = 1" and d1: "count_calls is_drafting w' = 1"
    and d: "\<exists>h m d. calls w' = h @ [GeneratorCall REVISION_SYSTEM m, ComplianceCall d] \<and>
            generator ?e h REVISION_SYSTEM m = Inr d \<and> st_draft final = Some d"
    by auto
  from d have dr: "st_draft final = Some ''TBD''" by auto
  have p: "run_demo ?e None False None fresh = (Inr ''TBD'', w')"
    using run dr by (simp add: run_demo_plain t get_or_def)
  show ?thesis using s p r1 d1 by (simp add: count_calls_record)
qed

section \<open>The context formatter: what it produces\<close>

lemma length_fmt_lines: "length (fmt_lines i docs) = length docs"
  by (induction docs arbitrary: i) simp_all

lemma nth_fmt_lines: "k < length docs \<Longrightarrow> fmt_lines i docs ! k = fmt_line (i + k) (docs ! k)"
proof (induction docs arbitrary: i k)
  case Nil
  then show ?case by simp
next
  case (Cons d ds)
  show ?case
  proof (cases k)
    case 0
    then show ?thesis by simp
  next
    case (Suc j)
    with Cons.prems have "j < length ds" by simp
    from Cons.IH [OF this, of "i + 1"] Suc show ?thesis by simp
  qed
qed

lemma fmt_line_shape:
  "fmt_line i d = ''- ['' @ str_nat i @ ''] ('' @ source_label d @ '') '' @
     map (\<lambda>c. if c = nl then CHR '' '' else c) (take 350 (page_content d)) @ ''...''"
  by (simp add: fmt_line_def source_label_def replace_char_def)

lemma has_ellipsis_fmt_line: "has_ellipsis (fmt_line i d)"
proof -
  have "fmt_line i d = (''- ['' @ str_nat i @ ''] ('' @ source_label d @ '') '' @
     map (\<lambda>c. if c = nl then CHR '' '' else c) (take 350 (page_content d))) @ ''...''"
    by (simp add: fmt_line_shape)
  then show ?thesis unfolding has_ellipsis_def suffix_def by blast
qed

lemma preview_no_newline:
  "nl \<notin> set (map (\<lambda>c. if c = nl then CHR '' '' else c) (take 350 (page_content d)))"
  by (auto simp add: nl_def)

lemma newlines_append [simp]: "newlines (a @ b) = newlines a + newlines b"
  by (simp add: newlines_def)

lemma newlines_zero: "newlines s = 0 \<longleftrightarrow> nl \<notin> set s"
  by (auto simp add: newlines_def filter_empty_conv)

lemma digit_not_nl: "d < 10 \<Longrightarrow> digit d \<noteq> nl"
proof
  assume d: "d < 10" and "digit d = nl"
  then have "(of_char (char_of (48 + d) :: char) :: nat) = of_char (CHR 0x0A)"
    by (simp add: digit_def nl_def)
  with d show False by simp
qed

lemma str_nat_no_newline: "nl \<notin> set (str_nat n)"
proof (induction n rule: str_nat.induct)
  case (1 n)
  show ?case
  proof (cases "n < 10")
    case True
    then show ?thesis using digit_not_nl [of n] by (subst str_nat.simps) auto
  next
    case False
    have "n mod 10 < 10" by simp
    from digit_not_nl [OF this] "1.IH" [OF False] False show ?thesis
      by (subst str_nat.simps) auto
  qed
qed

lemma newlines_fmt_line: "nl \<notin> set (source_label d) \<Longrightarrow> newlines (fmt_line i d) = 0"
  using str_nat_no_newline [of i] preview_no_newline [of d]
  by (simp add: newlines_zero fmt_line_shape) (simp add: nl_def)

lemma newlines_join:
  "(\<forall>x \<in> set xs. newlines x = 0) \<Longrightarrow> newlines (join [nl] xs) = length xs - 1"
proof (induction "[nl]" xs rule: join.induct)
  case 1
  then show ?case by (simp add: newlines_def)
next
  case (2 x)
  then show ?case by simp
next
  case (3 x y ys)
  then show ?case by (simp add: newlines_def)
qed

lemma set_fmt_lines:
  "x \<in> set (fmt_lines i docs) \<Longrightarrow> \<exists>j d. d \<in> set docs \<and> x = fmt_line j d"
proof (induction docs arbitrary: i)
  case Nil
  then show ?case by simp
next
  case (Cons a docs)
  from Cons.prems consider "x = fmt_line i a" | "x \<in> set (fmt_lines (i + 1) docs)" by auto
  then show ?case
  proof cases
    case 1
    then show ?thesis by auto
  next
    case 2
    from Cons.IH [OF this] show ?thesis by auto
  qed
qed

text \<open>
  Claim C8, as amended. The context is the entries of the snippets joined by newlines,
  one entry per snippet and in their order. Entry number \<open>k + 1\<close> is the text
  \<open>- [k+1] (label)\<close>, a space, the first 350 characters of the snippet with every newline
  replaced by a space, and the marker \<open>...\<close>; the marker closes every entry, truncated
  or not. When no source label holds a newline, the context has exactly one line per
  snippet.
\<close>

theorem fmt_context_entries:
  "(\<exists>lines. fmt_context docs = join [nl] lines \<and> length lines = length docs \<and>
      (\<forall>k < length docs. \<exists>p.
         lines ! k = ''- ['' @ str_nat (k + 1) @ ''] ('' @ source_label (docs ! k) @ '') '' @ p @ ''...'' \<and>
         p = map (\<lambda>c. if c = nl then CHR '' '' else c) (take 350 (page_content (docs ! k))) \<and>
         length p \<le> 350 \<and> nl \<notin> set p \<and> has_ellipsis (lines ! k))) \<and>
   ((\<forall>d \<in> set docs. nl \<notin> set (source_label d)) \<longrightarrow>
      newlines (fmt_context docs) = length docs - 1)"
proof (intro conjI impI)
  show "\<exists>lines. fmt_context docs = join [nl] lines \<and> length lines = length docs \<and>
      (\<forall>k < length docs. \<exists>p.
         lines ! k = ''- ['' @ str_nat (k + 1) @ ''] ('' @ source_label (docs ! k) @ '') '' @ p @ ''...'' \<and>
         p = map (\<lambda>c. if c = nl then CHR '' '' else c) (take 350 (page_content (docs ! k))) \<and>
         length p \<le> 350 \<and> nl \<notin> set p \<and> has_ellipsis (lines ! k))"
  proof (intro exI [where x = "fmt_lines 1 docs"] conjI allI impI)
    show "fmt_context docs = join [nl] (fmt_lines 1 docs)" by (simp add: fmt_context_def)
    show "length (fmt_lines 1 docs) = length docs" by (rule length_fmt_lines)
    fix k assume k: "k < length docs"
    let ?p = "map (\<lambda>c. if c = nl then CHR '' '' else c) (take 350 (page_content (docs ! k)))"
    have l: "fmt_lines 1 docs ! k = fmt_line (k + 1) (docs ! k)"
      using nth_fmt_lines [OF k, of 1] by (simp add: add.commute)
    have "fmt_lines 1 docs ! k =
        ''- ['' @ str_nat (k + 1) @ ''] ('' @ source_label (docs ! k) @ '') '' @ ?p @ ''...''"
      unfolding l by (rule fmt_line_shape)
    moreover have "length ?p \<le> 350" by simp
    moreover have "nl \<notin> set ?p" by (rule preview_no_newline)
    moreover have "has_ellipsis (fmt_lines 1 docs ! k)"
      unfolding l by (rule has_ellipsis_fmt_line)
    ultimately show "\<exists>p. fmt_lines 1 docs ! k =
         ''- ['' @ str_nat (k + 1) @ ''] ('' @ source_label (docs ! k) @ '') '' @ p @ ''...'' \<and>
         p = map (\<lambda>c. if c = nl then CHR '' '' else c) (take 350 (page_content (docs ! k))) \<and>
         length p \<le> 350 \<and> nl \<notin> set p \<and> has_ellipsis (fmt_lines 1 docs ! k)"
      by blast
  qed
next
  assume src: "\<forall>d \<in> set docs. nl \<notin> set (source_label d)"
  have "\<forall>x \<in> set (fmt_lines 1 docs). newlines x = 0"
  proof
    fix x assume "x \<in> set (fmt_lines 1 docs)"
    then obtain j d where "d \<in> set docs" and "x = fmt_line j d"
      using set_fmt_lines by blast
    with src show "newlines x = 0" by (simp add: newlines_fmt_line)
  qed
  then show "newlines (fmt_context docs) = length docs - 1"
    by (simp add: fmt_context_def newlines_join length_fmt_lines)
qed

theorem fmt_context_entries_witness:
  "nl \<notin> set (source_label \<lparr>metadata = Map.empty, page_content = ''ab''\<rparr>) \<and>
   nl \<notin> set (source_label \<lparr>metadata = [''source'' \<mapsto> ''/x/y.pdf''],
                              page_content = [CHR ''a'', nl, CHR ''b'']\<rparr>) \<and>
   newlines (fmt_context [\<lparr>metadata = Map.empty, page_content = ''ab''\<rparr>,
                \<lparr>metadata = [''source'' \<mapsto> ''/x/y.pdf''], page_content = [CHR ''a'', nl, CHR ''b'']\<rparr>]) = 1 \<and>
   fmt_context [\<lparr>metadata = Map.empty, page_content = ''ab''\<rparr>,
                \<lparr>metadata = [''source'' \<mapsto> ''/x/y.pdf''], page_content = [CHR ''a'', nl, CHR ''b'']\<rparr>] =
     ''- [1] (doc) ab...'' @ [nl] @ ''- [2] (y.pdf) a b...''"
proof -
  have s1: "nl \<notin> set (source_label \<lparr>metadata = Map.empty, page_content = ''ab''\<rparr>)"
    by (simp add: source_label_def basename_def nl_def)
  have s2: "nl \<notin> set (source_label \<lparr>metadata = [''source'' \<mapsto> ''/x/y.pdf''],
                              page_content = [CHR ''a'', nl, CHR ''b'']\<rparr>)"
    by (simp add: source_label_def basename_def nl_def)
  have out: "fmt_context [\<lparr>metadata = Map.empty, page_content = ''ab''\<rparr>,
                \<lparr>metadata = [''source'' \<mapsto> ''/x/y.pdf''], page_content = [CHR ''a'', nl, CHR ''b'']\<rparr>] =
     ''- [1] (doc) ab...'' @ [nl] @ ''- [2] (y.pdf) a b...''"
    by code_simp
  from s1 s2 fmt_context_entries [of "[\<lparr>metadata = Map.empty, page_content = ''ab''\<rparr>,
                \<lparr>metadata = [''source'' \<mapsto> ''/x/y.pdf''], page_content = [CHR ''a'', nl, CHR ''b'']\<rparr>]"]
  have "newlines (fmt_context [\<lparr>metadata = Map.empty, page_content = ''ab''\<rparr>,
                \<lparr>metadata = [''source'' \<mapsto> ''/x/y.pdf''], page_content = [CHR ''a'', nl, CHR ''b'']\<rparr>]) = 1"
    by simp
  with s1 s2 out show ?thesis by simp
qed

text \<open>
  Claim C8 as it was stated fails on a snippet of two characters: nothing is cut, and the
  entry still ends in the marker.
\<close>

theorem fmt_context_ellipsis_counterexample:
  "fmt_context [\<lparr>metadata = Map.empty, page_content = ''ab''\<rparr>] = ''- [1] (doc) ab...'' \<and>
   has_ellipsis (fmt_context [\<lparr>metadata = Map.empty, page_content = ''ab''\<rparr>]) \<and>
   \<not> truncated \<lparr>metadata = Map.empty, page_content = ''ab''\<rparr>"
proof -
  have a: "fmt_context [\<lparr>metadata = Map.empty, page_content = ''ab''\<rparr>] = ''- [1] (doc) ab...''"
    by code_simp
  have "''- [1] (doc) ab...'' = ''- [1] (doc) ab'' @ ''...''" by simp
  then have b: "has_ellipsis ''- [1] (doc) ab...''"
    unfolding has_ellipsis_def suffix_def by blast
  have c: "\<not> truncated \<lparr>metadata = Map.empty, page_content = ''ab''\<rparr>"
    by (simp add: truncated_def)
  from a b c show ?thesis by simp
qed

end
